theory Spec2Isabelle
  imports Complex_Main
begin

section \<open>The upload simulation of the FileUpload component\<close>

text \<open>
  The component \<open>FileUpload\<close> keeps a list \<open>files\<close> of \<open>UploadedFile\<close> objects and
  drives it with timers: \<open>simulateFileProcessing\<close> appends a record and starts an
  upload interval; the upload interval, once a record reaches 100, clears itself and
  schedules a timeout; the timeout moves records to the analysis phase and starts an
  analysis interval; \<open>removeFile\<close> filters the list. The model is a state record and a
  total step function over events. The order in which the browser fires the timers is
  not fixed here: any active timer may fire next. The draws of \<open>Math.random()\<close> are
  inputs of the events. A JavaScript number is modelled as a real, so rounding is left
  out. An updater handed to \<open>setFiles\<close> is applied once, when the callback that hands it
  over runs, so updaters take effect in the order of the calls.
\<close>

subsection \<open>Data\<close>

datatype status_t = Uploading | Analyzing | Completed | Error

record UploadedFile =
  name :: string
  size_f :: string
  status :: status_t
  progress :: real
  issues :: "int option"

text \<open>
  A timer is the closure the source hands to \<open>setInterval\<close> or \<open>setTimeout\<close>; the only
  variable it captures is \<open>fileName\<close>.
\<close>

datatype timer = UploadInterval string | AnalysisTimeout string | AnalysisInterval string

fun timer_name :: "timer \<Rightarrow> string" where
  "timer_name (UploadInterval n) = n"
| "timer_name (AnalysisTimeout n) = n"
| "timer_name (AnalysisInterval n) = n"

text \<open>
  \<open>files\<close> is the state of \<open>FileUpload\<close>, \<open>uploadedFiles\<close> the state of \<open>App\<close> that
  the callback \<open>onFileUpload\<close> appends to, \<open>timers\<close> the active timers of the browser
  with their handles, \<open>next_id\<close> the next fresh handle.
\<close>

record sim =
  files :: "UploadedFile list"
  uploadedFiles :: "string list"
  timers :: "(nat \<times> timer) list"
  next_id :: nat

definition init :: sim where
  "init = \<lparr>files = [], uploadedFiles = [], timers = [], next_id = 0\<rparr>"

datatype event =
    Submit string real real
  | Fire nat "nat \<Rightarrow> real"
  | Remove string

subsection \<open>Number formatting in the size label\<close>

definition digit_char :: "nat \<Rightarrow> char" where
  "digit_char d = ''0123456789'' ! d"

fun show_nat :: "nat \<Rightarrow> string" where
  "show_nat n = (if n < 10 then [digit_char n] else show_nat (n div 10) @ [digit_char (n mod 10)])"

definition show_int :: "int \<Rightarrow> string" where
  "show_int i = (if i < 0 then CHR ''-'' # show_nat (nat (- i)) else show_nat (nat i))"

text \<open>
  The template
  \<^verbatim>\<open>`${Math.floor(Math.random() * 5 + 1)}.${Math.floor(Math.random() * 9)}MB`\<close>
  with its two draws.
\<close>

definition size_label :: "real \<Rightarrow> real \<Rightarrow> string" where
  "size_label r1 r2 = show_int \<lfloor>r1 * 5 + 1\<rfloor> @ ''.'' @ show_int \<lfloor>r2 * 9\<rfloor> @ ''MB''"

subsection \<open>The callbacks\<close>

definition clearTimer :: "nat \<Rightarrow> (nat \<times> timer) list \<Rightarrow> (nat \<times> timer) list" where
  "clearTimer tid ts = filter (\<lambda>p. fst p \<noteq> tid) ts"

text \<open>
  \<open>simulateFileProcessing\<close>: the new record, \<open>setFiles(prev => [...prev, newFile])\<close>,
  \<open>onFileUpload(fileName)\<close>, then \<open>setInterval\<close>.
\<close>

definition simulateFileProcessing :: "string \<Rightarrow> real \<Rightarrow> real \<Rightarrow> sim \<Rightarrow> sim" where
  "simulateFileProcessing fileName r1 r2 s =
     (let newFile = \<lparr>name = fileName, size_f = size_label r1 r2, status = Uploading,
                      progress = 0, issues = None\<rparr>
      in s\<lparr>files := files s @ [newFile],
            uploadedFiles := uploadedFiles s @ [fileName],
            timers := timers s @ [(next_id s, UploadInterval fileName)],
            next_id := Suc (next_id s)\<rparr>)"

text \<open>
  The updater of the upload interval, \<open>prev.map(file => ...)\<close>. It draws one random
  number for each record it matches, in list order: \<open>rnd\<close> is the stream of draws and
  the first number the index of the next draw. The result holds the new list, the
  index after the last draw, and how many times the branch \<open>newProgress >= 100\<close> ran
  (each run calls \<open>clearInterval\<close> and \<open>setTimeout\<close>). The sum is a sum of reals; the
  source computes it in doubles, where it can differ in the last place. The properties
  below do not bound the growth of a sum and conclude nothing from a sum below 100.
\<close>

fun upload_tick ::
  "string \<Rightarrow> (nat \<Rightarrow> real) \<Rightarrow> nat \<Rightarrow> UploadedFile list \<Rightarrow> UploadedFile list \<times> nat \<times> nat" where
  "upload_tick fileName rnd k [] = ([], k, 0)"
| "upload_tick fileName rnd k (file # rest) =
     (if name file = fileName \<and> status file = Uploading then
        (let newProgress = progress file + rnd k * 30 in
         if newProgress \<ge> 100 then
           (case upload_tick fileName rnd (Suc k) rest of (rest', k', c) \<Rightarrow>
              (file\<lparr>status := Uploading, progress := 100\<rparr> # rest', k', Suc c))
         else
           (case upload_tick fileName rnd (Suc k) rest of (rest', k', c) \<Rightarrow>
              (file\<lparr>progress := newProgress\<rparr> # rest', k', c)))
      else
        (case upload_tick fileName rnd k rest of (rest', k', c) \<Rightarrow> (file # rest', k', c)))"

text \<open>
  The updater of the timeout:
  \<open>prev.map(f => f.name === fileName ? { ...f, status: 'analyzing', progress: 0 } : f)\<close>.
\<close>

definition start_analysis :: "string \<Rightarrow> UploadedFile list \<Rightarrow> UploadedFile list" where
  "start_analysis fileName fs =
     map (\<lambda>f. if name f = fileName then f\<lparr>status := Analyzing, progress := 0\<rparr> else f) fs"

text \<open>
  The updater of the analysis interval. A matched record draws once for the progress
  and, when it completes, once more for \<open>issues\<close>. The last component counts the runs
  of the completing branch (each calls \<open>clearInterval\<close>).
\<close>

fun analysis_tick ::
  "string \<Rightarrow> (nat \<Rightarrow> real) \<Rightarrow> nat \<Rightarrow> UploadedFile list \<Rightarrow> UploadedFile list \<times> nat \<times> nat" where
  "analysis_tick fileName rnd k [] = ([], k, 0)"
| "analysis_tick fileName rnd k (f # rest) =
     (if name f = fileName \<and> status f = Analyzing then
        (let newProgress = progress f + rnd k * 25 in
         if newProgress \<ge> 100 then
           (case analysis_tick fileName rnd (Suc (Suc k)) rest of (rest', k', c) \<Rightarrow>
              (f\<lparr>status := Completed, progress := 100,
                  issues := Some \<lfloor>rnd (Suc k) * 8\<rfloor>\<rparr> # rest', k', Suc c))
         else
           (case analysis_tick fileName rnd (Suc k) rest of (rest', k', c) \<Rightarrow>
              (f\<lparr>progress := newProgress\<rparr> # rest', k', c)))
      else
        (case analysis_tick fileName rnd k rest of (rest', k', c) \<Rightarrow> (f # rest', k', c)))"

text \<open>The callback of the upload interval with handle \<open>tid\<close>.\<close>

definition uploadIntervalFire :: "nat \<Rightarrow> string \<Rightarrow> (nat \<Rightarrow> real) \<Rightarrow> sim \<Rightarrow> sim" where
  "uploadIntervalFire tid fileName rnd s =
     (case upload_tick fileName rnd 0 (files s) of (fs', k, c) \<Rightarrow>
        s\<lparr>files := fs',
          timers := (if c > 0 then clearTimer tid (timers s) else timers s)
                    @ map (\<lambda>j. (next_id s + j, AnalysisTimeout fileName)) [0..<c],
          next_id := next_id s + c\<rparr>)"

text \<open>The callback of the timeout with handle \<open>tid\<close>; a timeout fires once.\<close>

definition analysisTimeoutFire :: "nat \<Rightarrow> string \<Rightarrow> sim \<Rightarrow> sim" where
  "analysisTimeoutFire tid fileName s =
     s\<lparr>files := start_analysis fileName (files s),
       timers := clearTimer tid (timers s) @ [(next_id s, AnalysisInterval fileName)],
       next_id := Suc (next_id s)\<rparr>"

text \<open>The callback of the analysis interval with handle \<open>tid\<close>.\<close>

definition analysisIntervalFire :: "nat \<Rightarrow> string \<Rightarrow> (nat \<Rightarrow> real) \<Rightarrow> sim \<Rightarrow> sim" where
  "analysisIntervalFire tid fileName rnd s =
     (case analysis_tick fileName rnd 0 (files s) of (fs', k, c) \<Rightarrow>
        s\<lparr>files := fs',
          timers := (if c > 0 then clearTimer tid (timers s) else timers s)\<rparr>)"

text \<open>\<open>removeFile\<close>: \<open>prev.filter(file => file.name !== fileName)\<close>; no timer is cleared.\<close>

definition removeFile :: "string \<Rightarrow> sim \<Rightarrow> sim" where
  "removeFile fileName s = s\<lparr>files := filter (\<lambda>file. name file \<noteq> fileName) (files s)\<rparr>"

text \<open>A handle that is not active never fires: the event leaves the state as it is.\<close>

definition fire :: "nat \<Rightarrow> (nat \<Rightarrow> real) \<Rightarrow> sim \<Rightarrow> sim" where
  "fire tid rnd s =
     (case map_of (timers s) tid of
        None \<Rightarrow> s
      | Some (UploadInterval fileName) \<Rightarrow> uploadIntervalFire tid fileName rnd s
      | Some (AnalysisTimeout fileName) \<Rightarrow> analysisTimeoutFire tid fileName s
      | Some (AnalysisInterval fileName) \<Rightarrow> analysisIntervalFire tid fileName rnd s)"

fun step :: "event \<Rightarrow> sim \<Rightarrow> sim" where
  "step (Submit fileName r1 r2) s = simulateFileProcessing fileName r1 r2 s"
| "step (Fire tid rnd) s = fire tid rnd s"
| "step (Remove fileName) s = removeFile fileName s"

definition run :: "event list \<Rightarrow> sim \<Rightarrow> sim" where
  "run es s = foldl (\<lambda>s e. step e s) s es"

text \<open>\<open>Math.random()\<close> returns a number in \<open>[0, 1)\<close>.\<close>

definition unit_draw :: "real \<Rightarrow> bool" where
  "unit_draw r \<longleftrightarrow> 0 \<le> r \<and> r < 1"

fun valid_event :: "event \<Rightarrow> bool" where
  "valid_event (Submit fileName r1 r2) \<longleftrightarrow> unit_draw r1 \<and> unit_draw r2"
| "valid_event (Fire tid rnd) \<longleftrightarrow> (\<forall>k. unit_draw (rnd k))"
| "valid_event (Remove fileName) \<longleftrightarrow> True"

inductive reachable :: "sim \<Rightarrow> bool" where
  reachable_init: "reachable init"
| reachable_step: "reachable s \<Longrightarrow> valid_event e \<Longrightarrow> reachable (step e s)"

subsection \<open>What the updaters do to one record\<close>

text \<open>
  The bodies of the three \<open>map\<close> callbacks, for one record and given draws. They are
  used to state what \<open>upload_tick\<close>, \<open>start_analysis\<close> and \<open>analysis_tick\<close> do at
  each position of the list.
\<close>

definition upload_one :: "string \<Rightarrow> real \<Rightarrow> UploadedFile \<Rightarrow> UploadedFile" where
  "upload_one n r f =
     (if name f = n \<and> status f = Uploading then
        (if progress f + r * 30 \<ge> 100 then f\<lparr>status := Uploading, progress := 100\<rparr>
         else f\<lparr>progress := progress f + r * 30\<rparr>)
      else f)"

definition analysis_one :: "string \<Rightarrow> real \<Rightarrow> real \<Rightarrow> UploadedFile \<Rightarrow> UploadedFile" where
  "analysis_one n r r' f =
     (if name f = n \<and> status f = Analyzing then
        (if progress f + r * 25 \<ge> 100
         then f\<lparr>status := Completed, progress := 100, issues := Some \<lfloor>r' * 8\<rfloor>\<rparr>
         else f\<lparr>progress := progress f + r * 25\<rparr>)
      else f)"

definition start_one :: "string \<Rightarrow> UploadedFile \<Rightarrow> UploadedFile" where
  "start_one n f = (if name f = n then f\<lparr>status := Analyzing, progress := 0\<rparr> else f)"

subsection \<open>Invariants\<close>

text \<open>
  \<open>good\<close> holds of every record of a reachable state. \<open>uniq_inv\<close> holds of a
  reachable state as long as no identifier was submitted twice; its fifth part says
  that while a timeout for an identifier is pending, the record with that identifier
  waits in phase Uploading at progress 100. \<open>ids_below\<close> says that the handles in
  use are below the next fresh one.
\<close>

definition good :: "UploadedFile \<Rightarrow> bool" where
  "good f \<longleftrightarrow> 0 \<le> progress f \<and> progress f \<le> 100
     \<and> (status f = Analyzing \<longrightarrow> progress f < 100)
     \<and> (status f = Completed \<longrightarrow> progress f = 100 \<and> issues f \<noteq> None)
     \<and> status f \<noteq> Error
     \<and> (\<forall>k. issues f = Some k \<longrightarrow> 0 \<le> k \<and> k < 8)"

definition uniq_inv :: "sim \<Rightarrow> bool" where
  "uniq_inv s \<longleftrightarrow>
     (\<forall>f \<in> set (files s). name f \<in> set (uploadedFiles s))
   \<and> (\<forall>p \<in> set (timers s). timer_name (snd p) \<in> set (uploadedFiles s))
   \<and> distinct (map name (files s))
   \<and> distinct (map (\<lambda>p. timer_name (snd p)) (timers s))
   \<and> (\<forall>p \<in> set (timers s). \<forall>f \<in> set (files s).
         snd p = AnalysisTimeout (name f) \<longrightarrow> status f = Uploading \<and> progress f = 100)
   \<and> (\<forall>f \<in> set (files s). status f \<noteq> Completed \<longrightarrow> issues f = None)"

definition ids_below :: "sim \<Rightarrow> bool" where
  "ids_below s \<longleftrightarrow> (\<forall>p \<in> set (timers s). fst p < next_id s)"

subsection \<open>Forward moves of the phase\<close>

text \<open>
  The moves of a phase that follow Uploading, Analyzing, Completed without skipping and
  without going back.
\<close>

definition phase_fwd :: "status_t \<Rightarrow> status_t \<Rightarrow> bool" where
  "phase_fwd a b \<longleftrightarrow> b = a \<or> (a = Uploading \<and> b = Analyzing) \<or> (a = Analyzing \<and> b = Completed)"

subsection \<open>Scenarios\<close>

text \<open>
  Concrete draws and event sequences. \<open>hi\<close> always draws 0.9, so an upload takes four
  ticks and an analysis five. Handles are given out in order: in \<open>upload_A\<close> the upload
  interval is 0 and the timeout 1, in \<open>analyze_A\<close> the analysis interval is 2; a second
  submission gets the upload interval 3, the timeout 4 and the analysis interval 5.
  The sequences respect the periods of the source (200 ms for an upload tick, 1000 ms for
  the timeout, 500 ms for an analysis tick): in \<open>overlap_A\<close> the second submission
  comes right after the first record has entered its analysis, and the analysis ticks
  that fall before the second timeout are there, two of them with the draw 0. In
  \<open>early_A\<close> the second submission comes while the first record waits for its timeout;
  its upload interval (handle 2) ticks once, 200 ms later, before that timeout is due.
\<close>

definition hi :: "nat \<Rightarrow> real" where
  "hi k = 9 / 10"

definition half :: "nat \<Rightarrow> real" where
  "half k = 1 / 2"

definition zero :: "nat \<Rightarrow> real" where
  "zero k = 0"

definition low_issue :: "nat \<Rightarrow> real" where
  "low_issue k = (if k = 1 then 1 / 8 else 9 / 10)"

definition file_A :: "status_t \<Rightarrow> real \<Rightarrow> int option \<Rightarrow> UploadedFile" where
  "file_A st p iss = \<lparr>name = ''A.fig'', size_f = ''3.4MB'', status = st, progress = p, issues = iss\<rparr>"

definition file_B :: "status_t \<Rightarrow> real \<Rightarrow> int option \<Rightarrow> UploadedFile" where
  "file_B st p iss = \<lparr>name = ''B.fig'', size_f = ''3.4MB'', status = st, progress = p, issues = iss\<rparr>"

definition near_A :: "event list" where
  "near_A = [Submit ''A.fig'' (1 / 2) (1 / 2), Fire 0 hi, Fire 0 hi, Fire 0 hi]"

definition upload_A :: "event list" where
  "upload_A = [Submit ''A.fig'' (1 / 2) (1 / 2), Fire 0 hi, Fire 0 hi, Fire 0 hi, Fire 0 hi]"

definition early_A :: "event list" where
  "early_A = upload_A @ [Submit ''A.fig'' (1 / 2) (1 / 2), Fire 2 hi]"

definition analyze_A :: "event list" where
  "analyze_A = upload_A @ [Fire 1 hi, Fire 2 hi, Fire 2 hi, Fire 2 hi, Fire 2 hi]"

definition complete_A :: "event list" where
  "complete_A = analyze_A @ [Fire 2 hi]"

definition resubmit_A :: "event list" where
  "resubmit_A = complete_A @ [Submit ''A.fig'' (1 / 2) (1 / 2), Fire 3 hi, Fire 3 hi, Fire 3 hi, Fire 3 hi]"

definition reanalyze_A :: "event list" where
  "reanalyze_A = resubmit_A @ [Fire 4 hi]"

definition recomplete_A :: "event list" where
  "recomplete_A = reanalyze_A @ [Fire 5 hi, Fire 5 hi, Fire 5 hi, Fire 5 hi, Fire 5 low_issue]"

definition overlap_A :: "event list" where
  "overlap_A = upload_A @ [Fire 1 hi, Submit ''A.fig'' (1 / 2) (1 / 2), Fire 3 hi, Fire 3 hi,
     Fire 2 hi, Fire 3 hi, Fire 3 hi, Fire 2 zero, Fire 2 zero]"

definition twice_A :: "event list" where
  "twice_A = [Submit ''A.fig'' (1 / 2) (1 / 2), Submit ''A.fig'' (1 / 2) (1 / 2)]"

definition again_A :: "event list" where
  "again_A = [Submit ''A.fig'' (1 / 2) (1 / 2), Remove ''A.fig'', Submit ''A.fig'' (1 / 2) (1 / 2)]"

definition orphan_A :: "event list" where
  "orphan_A = analyze_A @ [Remove ''A.fig'', Submit ''A.fig'' (1 / 2) (1 / 2)]"

definition pair_AB :: "event list" where
  "pair_AB = [Submit ''A.fig'' (1 / 2) (1 / 2), Submit ''B.fig'' (1 / 2) (1 / 2), Fire 0 hi]"

section \<open>Properties\<close>

subsection \<open>Facts about the updaters\<close>

lemma upload_tick_idle:
  "\<forall>f \<in> set fs. \<not> (name f = n \<and> status f = Uploading) \<Longrightarrow> upload_tick n rnd k fs = (fs, k, 0)"
  by (induction fs) auto

lemma analysis_tick_idle:
  "\<forall>f \<in> set fs. \<not> (name f = n \<and> status f = Analyzing) \<Longrightarrow> analysis_tick n rnd k fs = (fs, k, 0)"
  by (induction fs) auto

lemma upload_tick_length: "length (fst (upload_tick n rnd k fs)) = length fs"
  by (induction fs arbitrary: k) (simp_all add: Let_def case_prod_unfold)

lemma analysis_tick_length: "length (fst (analysis_tick n rnd k fs)) = length fs"
  by (induction fs arbitrary: k) (simp_all add: Let_def case_prod_unfold)

lemma upload_tick_nth:
  "i < length fs \<Longrightarrow> \<exists>j. fst (upload_tick n rnd k fs) ! i = upload_one n (rnd j) (fs ! i)"
proof (induction fs arbitrary: k i)
  case Nil
  then show ?case by simp
next
  case (Cons f fs)
  show ?case
  proof (cases i)
    case 0
    then show ?thesis
      by (simp add: upload_one_def Let_def case_prod_unfold) blast
  next
    case (Suc i')
    with Cons.prems have "i' < length fs" by simp
    from Cons.IH [OF this] Suc show ?thesis
      by (simp add: Let_def case_prod_unfold)
  qed
qed

lemma analysis_tick_nth:
  "i < length fs \<Longrightarrow>
   \<exists>j. fst (analysis_tick n rnd k fs) ! i = analysis_one n (rnd j) (rnd (Suc j)) (fs ! i)"
proof (induction fs arbitrary: k i)
  case Nil
  then show ?case by simp
next
  case (Cons f fs)
  show ?case
  proof (cases i)
    case 0
    then show ?thesis
      by (simp add: analysis_one_def Let_def case_prod_unfold) blast
  next
    case (Suc i')
    with Cons.prems have "i' < length fs" by simp
    from Cons.IH [OF this] Suc show ?thesis
      by (simp add: Let_def case_prod_unfold)
  qed
qed

lemma upload_tick_count:
  "snd (snd (upload_tick n rnd k fs)) \<le> length (filter (\<lambda>f. name f = n) fs)"
  by (induction fs arbitrary: k) (auto simp: Let_def case_prod_unfold le_SucI)

lemma upload_tick_crossed:
  "0 < snd (snd (upload_tick n rnd k fs)) \<Longrightarrow>
   \<exists>f \<in> set (fst (upload_tick n rnd k fs)). name f = n \<and> status f = Uploading \<and> progress f = 100"
  by (induction fs arbitrary: k) (auto simp: Let_def case_prod_unfold split: if_splits)

lemma start_analysis_map: "start_analysis n fs = map (start_one n) fs"
  by (simp add: start_analysis_def start_one_def)

lemma upload_tick_names: "map name (fst (upload_tick n rnd k fs)) = map name fs"
  by (induction fs arbitrary: k) (simp_all add: Let_def case_prod_unfold)

lemma analysis_tick_names: "map name (fst (analysis_tick n rnd k fs)) = map name fs"
  by (induction fs arbitrary: k) (simp_all add: Let_def case_prod_unfold)

lemma start_analysis_names: "map name (start_analysis n fs) = map name fs"
  by (induction fs) (simp_all add: start_analysis_def)

lemma upload_tick_sizes: "map size_f (fst (upload_tick n rnd k fs)) = map size_f fs"
  by (induction fs arbitrary: k) (simp_all add: Let_def case_prod_unfold)

lemma analysis_tick_sizes: "map size_f (fst (analysis_tick n rnd k fs)) = map size_f fs"
  by (induction fs arbitrary: k) (simp_all add: Let_def case_prod_unfold)

lemma start_analysis_sizes: "map size_f (start_analysis n fs) = map size_f fs"
  by (induction fs) (simp_all add: start_analysis_def)

lemma floor_draw_range: "unit_draw r \<Longrightarrow> 0 \<le> \<lfloor>r * 8\<rfloor> \<and> \<lfloor>r * 8\<rfloor> < 8"
  by (simp add: unit_draw_def floor_less_iff)

lemma good_upload_one: "good f \<Longrightarrow> unit_draw r \<Longrightarrow> good (upload_one n r f)"
  by (auto simp: good_def upload_one_def unit_draw_def)

lemma good_start_one: "good f \<Longrightarrow> good (start_one n f)"
  by (auto simp: good_def start_one_def)

lemma good_analysis_one: "good f \<Longrightarrow> unit_draw r \<Longrightarrow> unit_draw r' \<Longrightarrow> good (analysis_one n r r' f)"
  using floor_draw_range [of r']
  by (auto simp: good_def analysis_one_def unit_draw_def)

lemma fire_length: "length (files (fire tid rnd s)) = length (files s)"
  by (simp add: fire_def uploadIntervalFire_def analysisTimeoutFire_def analysisIntervalFire_def
      case_prod_unfold upload_tick_length analysis_tick_length start_analysis_map
      split: option.splits timer.splits)

lemma fire_nth:
  assumes "i < length (files s)"
  shows "(map_of (timers s) tid = None \<and> files (fire tid rnd s) ! i = files s ! i)
    \<or> (\<exists>n j. map_of (timers s) tid = Some (UploadInterval n)
          \<and> files (fire tid rnd s) ! i = upload_one n (rnd j) (files s ! i))
    \<or> (\<exists>n. map_of (timers s) tid = Some (AnalysisTimeout n)
          \<and> files (fire tid rnd s) ! i = start_one n (files s ! i))
    \<or> (\<exists>n j. map_of (timers s) tid = Some (AnalysisInterval n)
          \<and> files (fire tid rnd s) ! i = analysis_one n (rnd j) (rnd (Suc j)) (files s ! i))"
proof (cases "map_of (timers s) tid")
  case None
  then show ?thesis by (simp add: fire_def)
next
  case (Some t)
  show ?thesis
  proof (cases t)
    case (UploadInterval n)
    with Some upload_tick_nth [OF assms, of n rnd 0] show ?thesis
      by (simp add: fire_def uploadIntervalFire_def case_prod_unfold)
  next
    case (AnalysisTimeout n)
    with Some assms show ?thesis
      by (simp add: fire_def analysisTimeoutFire_def start_analysis_map)
  next
    case (AnalysisInterval n)
    with Some analysis_tick_nth [OF assms, of n rnd 0] show ?thesis
      by (simp add: fire_def analysisIntervalFire_def case_prod_unfold)
  qed
qed

lemma fire_good:
  assumes "\<forall>f \<in> set (files s). good f" and "\<forall>k. unit_draw (rnd k)"
  shows "\<forall>f \<in> set (files (fire tid rnd s)). good f"
proof
  fix f assume "f \<in> set (files (fire tid rnd s))"
  then obtain i where i: "i < length (files s)" and f: "f = files (fire tid rnd s) ! i"
    by (auto simp: in_set_conv_nth fire_length)
  from i assms(1) have g: "good (files s ! i)" by simp
  from fire_nth [OF i, of tid rnd] g assms(2) show "good f"
    unfolding f by (auto simp: good_upload_one good_start_one good_analysis_one)
qed

lemma step_good:
  assumes "\<forall>f \<in> set (files s). good f" and "valid_event e"
  shows "\<forall>f \<in> set (files (step e s)). good f"
proof (cases e)
  case (Submit n r1 r2)
  with assms show ?thesis by (auto simp: simulateFileProcessing_def good_def)
next
  case (Fire tid rnd)
  with assms fire_good [of s rnd tid] show ?thesis by simp
next
  case (Remove n)
  with assms show ?thesis by (auto simp: removeFile_def)
qed

lemma reachable_good: "reachable s \<Longrightarrow> \<forall>f \<in> set (files s). good f"
  by (induction rule: reachable.induct) (simp_all add: init_def step_good)

lemma distinct_filter_le1:
  "distinct (map g xs) \<Longrightarrow> length (filter (\<lambda>x. g x = a) xs) \<le> Suc 0"
  by (induction xs) (auto simp: filter_empty_conv image_iff)

lemma distinct_map_eq:
  "distinct (map g xs) \<Longrightarrow> x \<in> set xs \<Longrightarrow> y \<in> set xs \<Longrightarrow> g x = g y \<Longrightarrow> x = y"
  by (meson distinct_map inj_on_def)

lemma clearTimer_set: "p \<in> set (clearTimer tid ts) \<longleftrightarrow> p \<in> set ts \<and> fst p \<noteq> tid"
  by (simp add: clearTimer_def)

lemma clearTimer_distinct:
  "distinct (map g ts) \<Longrightarrow> distinct (map g (clearTimer tid ts))"
  by (simp add: clearTimer_def distinct_map_filter)

lemma clearTimer_other_name:
  assumes "distinct (map (\<lambda>p. timer_name (snd p)) ts)" and "map_of ts tid = Some t"
    and "p \<in> set (clearTimer tid ts)"
  shows "timer_name (snd p) \<noteq> timer_name t"
proof
  assume eq: "timer_name (snd p) = timer_name t"
  from assms(2) have "(tid, t) \<in> set ts" by (rule map_of_SomeD)
  moreover from assms(3) have "p \<in> set ts" and "fst p \<noteq> tid" by (simp_all add: clearTimer_set)
  ultimately have "p = (tid, t)"
    using distinct_map_eq [OF assms(1), of p "(tid, t)"] eq by simp
  with \<open>fst p \<noteq> tid\<close> show False by simp
qed

lemma fire_set:
  assumes "f' \<in> set (files (fire tid rnd s))"
  shows "\<exists>f \<in> set (files s).
      (map_of (timers s) tid = None \<and> f' = f)
    \<or> (\<exists>n j. map_of (timers s) tid = Some (UploadInterval n) \<and> f' = upload_one n (rnd j) f)
    \<or> (\<exists>n. map_of (timers s) tid = Some (AnalysisTimeout n) \<and> f' = start_one n f)
    \<or> (\<exists>n j. map_of (timers s) tid = Some (AnalysisInterval n)
          \<and> f' = analysis_one n (rnd j) (rnd (Suc j)) f)"
proof -
  from assms obtain i where i: "i < length (files s)" and f: "f' = files (fire tid rnd s) ! i"
    by (auto simp: in_set_conv_nth fire_length)
  from i have "files s ! i \<in> set (files s)" by simp
  with fire_nth [OF i, of tid rnd] f show ?thesis by blast
qed

lemma fire_names: "map name (files (fire tid rnd s)) = map name (files s)"
  by (simp add: fire_def uploadIntervalFire_def analysisTimeoutFire_def analysisIntervalFire_def
      case_prod_unfold upload_tick_names analysis_tick_names start_analysis_names
      split: option.splits timer.splits)

lemma fire_uploaded: "uploadedFiles (fire tid rnd s) = uploadedFiles s"
  by (simp add: fire_def uploadIntervalFire_def analysisTimeoutFire_def analysisIntervalFire_def
      case_prod_unfold split: option.splits timer.splits)

lemma fire_timers:
  assumes "distinct (map name (files s))"
  shows "(map_of (timers s) tid = None \<and> timers (fire tid rnd s) = timers s)
    \<or> (\<exists>n. map_of (timers s) tid = Some (UploadInterval n)
          \<and> (timers (fire tid rnd s) = timers s
             \<or> timers (fire tid rnd s) = clearTimer tid (timers s) @ [(next_id s, AnalysisTimeout n)]
               \<and> (\<exists>f \<in> set (files (fire tid rnd s)).
                     name f = n \<and> status f = Uploading \<and> progress f = 100)))
    \<or> (\<exists>n. map_of (timers s) tid = Some (AnalysisTimeout n)
          \<and> timers (fire tid rnd s) = clearTimer tid (timers s) @ [(next_id s, AnalysisInterval n)])
    \<or> (\<exists>n. map_of (timers s) tid = Some (AnalysisInterval n)
          \<and> (timers (fire tid rnd s) = timers s \<or> timers (fire tid rnd s) = clearTimer tid (timers s)))"
proof (cases "map_of (timers s) tid")
  case None
  then show ?thesis by (simp add: fire_def)
next
  case (Some t)
  show ?thesis
  proof (cases t)
    case (UploadInterval n)
    let ?c = "snd (snd (upload_tick n rnd 0 (files s)))"
    have "?c \<le> Suc 0"
      using upload_tick_count [of n rnd 0 "files s"] distinct_filter_le1 [OF assms, of n]
      by linarith
    then have "?c = 0 \<or> ?c = Suc 0" by linarith
    then show ?thesis
    proof
      assume "?c = 0"
      with Some UploadInterval show ?thesis
        by (simp add: fire_def uploadIntervalFire_def case_prod_unfold)
    next
      assume c: "?c = Suc 0"
      then have "0 < ?c" by simp
      from upload_tick_crossed [OF this] c Some UploadInterval show ?thesis
        by (simp add: fire_def uploadIntervalFire_def case_prod_unfold)
    qed
  next
    case (AnalysisTimeout n)
    with Some show ?thesis by (simp add: fire_def analysisTimeoutFire_def)
  next
    case (AnalysisInterval n)
    with Some show ?thesis by (simp add: fire_def analysisIntervalFire_def case_prod_unfold)
  qed
qed

lemma upload_one_keeps: "name (upload_one n r f) = name f" "status (upload_one n r f) = status f"
  "issues (upload_one n r f) = issues f" "size_f (upload_one n r f) = size_f f"
  by (simp_all add: upload_one_def)

lemma upload_one_other: "name f \<noteq> n \<Longrightarrow> upload_one n r f = f"
  by (simp add: upload_one_def)

lemma analysis_one_other: "name f \<noteq> n \<Longrightarrow> analysis_one n r r' f = f"
  by (simp add: analysis_one_def)

lemma start_one_other: "name f \<noteq> n \<Longrightarrow> start_one n f = f"
  by (simp add: start_one_def)

lemma uniq_submit:
  assumes "uniq_inv s" and "distinct (uploadedFiles s @ [n])"
  shows "uniq_inv (simulateFileProcessing n r1 r2 s)"
  using assms by (auto simp: uniq_inv_def simulateFileProcessing_def)

lemma uniq_remove: "uniq_inv s \<Longrightarrow> uniq_inv (removeFile n s)"
  by (auto simp: uniq_inv_def removeFile_def distinct_map_filter)

lemma old_timer_other:
  assumes "distinct (map (\<lambda>p. timer_name (snd p)) ts)" and "map_of ts tid = Some t"
    and "p \<in> set ts" and "snd p \<noteq> t"
  shows "timer_name (snd p) \<noteq> timer_name t"
proof
  assume eq: "timer_name (snd p) = timer_name t"
  from assms(2) have "(tid, t) \<in> set ts" by (rule map_of_SomeD)
  with assms(3) have "p = (tid, t)"
    using distinct_map_eq [OF assms(1), of p "(tid, t)"] eq by simp
  with assms(4) show False by simp
qed

lemma fire_nth_other:
  assumes "i < length (files s)" and "map_of (timers s) tid = Some t"
    and "name (files s ! i) \<noteq> timer_name t"
  shows "files (fire tid rnd s) ! i = files s ! i"
  using fire_nth [OF assms(1), of tid rnd] assms(2,3)
  by (auto simp: upload_one_other start_one_other analysis_one_other)

lemma fire_set_other:
  assumes "f' \<in> set (files (fire tid rnd s))" and "map_of (timers s) tid = Some t"
    and "name f' \<noteq> timer_name t"
  shows "f' \<in> set (files s)"
proof -
  from assms(1) obtain i where i: "i < length (files s)" and f: "f' = files (fire tid rnd s) ! i"
    by (auto simp: in_set_conv_nth fire_length)
  have "name f' = name (files s ! i)"
    using fire_names [of tid rnd s] i f by (metis fire_length nth_map)
  with assms(3) have "name (files s ! i) \<noteq> timer_name t" by simp
  from fire_nth_other [OF i assms(2) this] f i show ?thesis by simp
qed

lemma timers_append_distinct:
  assumes "distinct (map (\<lambda>p. timer_name (snd p)) ts)" and "map_of ts tid = Some t"
    and "timer_name t' = timer_name t"
  shows "distinct (map (\<lambda>p. timer_name (snd p)) (clearTimer tid ts @ [(k, t')]))"
proof -
  have "timer_name t \<notin> (\<lambda>p. timer_name (snd p)) ` set (clearTimer tid ts)"
  proof
    assume "timer_name t \<in> (\<lambda>p. timer_name (snd p)) ` set (clearTimer tid ts)"
    then obtain p where "p \<in> set (clearTimer tid ts)" and "timer_name t = timer_name (snd p)"
      by auto
    with clearTimer_other_name [OF assms(1,2), of p] show False by simp
  qed
  with clearTimer_distinct [OF assms(1), of tid] assms(3) show ?thesis by simp
qed

lemma uniq_fire_None: "map_of (timers s) tid = None \<Longrightarrow> fire tid rnd s = s"
  by (simp add: fire_def)

lemma uniq_fire:
  assumes inv: "uniq_inv s"
  shows "uniq_inv (fire tid rnd s)"
proof (cases "map_of (timers s) tid")
  case None
  with inv show ?thesis by (simp add: uniq_fire_None)
next
  case (Some t)
  let ?s' = "fire tid rnd s"
  from inv have known: "\<forall>f \<in> set (files s). name f \<in> set (uploadedFiles s)"
    and tknown: "\<forall>p \<in> set (timers s). timer_name (snd p) \<in> set (uploadedFiles s)"
    and dn: "distinct (map name (files s))"
    and dt: "distinct (map (\<lambda>p. timer_name (snd p)) (timers s))"
    and wait: "\<forall>p \<in> set (timers s). \<forall>f \<in> set (files s).
         snd p = AnalysisTimeout (name f) \<longrightarrow> status f = Uploading \<and> progress f = 100"
    and noiss: "\<forall>f \<in> set (files s). status f \<noteq> Completed \<longrightarrow> issues f = None"
    by (simp_all add: uniq_inv_def)
  from Some have tin: "(tid, t) \<in> set (timers s)" by (rule map_of_SomeD)
  have names: "map name (files ?s') = map name (files s)" by (rule fire_names)
  have up: "uploadedFiles ?s' = uploadedFiles s" by (rule fire_uploaded)
  have dn': "distinct (map name (files ?s'))" using dn names by simp
  have known': "\<forall>f \<in> set (files ?s'). name f \<in> set (uploadedFiles ?s')"
  proof
    fix f assume "f \<in> set (files ?s')"
    then have "name f \<in> set (map name (files ?s'))" by simp
    then have "name f \<in> name ` set (files s)" using names by simp
    with known up show "name f \<in> set (uploadedFiles ?s')" by auto
  qed
  from fire_timers [OF dn, of tid rnd] Some
  consider (same) "timers ?s' = timers s" "\<forall>n. t \<noteq> AnalysisTimeout n"
    | (cleared) "timers ?s' = clearTimer tid (timers s)"
    | (timeout) n where "t = UploadInterval n"
        "timers ?s' = clearTimer tid (timers s) @ [(next_id s, AnalysisTimeout n)]"
        "\<exists>f \<in> set (files ?s'). name f = n \<and> status f = Uploading \<and> progress f = 100"
    | (interval) n where "t = AnalysisTimeout n"
        "timers ?s' = clearTimer tid (timers s) @ [(next_id s, AnalysisInterval n)]"
    by auto
  note tcases = this
  have tknown': "\<forall>p \<in> set (timers ?s'). timer_name (snd p) \<in> set (uploadedFiles ?s')"
  proof (cases rule: tcases)
    case same
    with tknown up show ?thesis by simp
  next
    case cleared
    with tknown up show ?thesis by (simp add: clearTimer_set)
  next
    case (timeout n)
    with tknown up tin show ?thesis by (auto simp: clearTimer_set)
  next
    case (interval n)
    with tknown up tin show ?thesis by (auto simp: clearTimer_set)
  qed
  have dt': "distinct (map (\<lambda>p. timer_name (snd p)) (timers ?s'))"
  proof (cases rule: tcases)
    case same
    with dt show ?thesis by simp
  next
    case cleared
    with clearTimer_distinct [OF dt, of tid] show ?thesis by simp
  next
    case (timeout n)
    with timers_append_distinct [OF dt Some, of "AnalysisTimeout n"] show ?thesis by simp
  next
    case (interval n)
    with timers_append_distinct [OF dt Some, of "AnalysisInterval n"] show ?thesis by simp
  qed
  have noiss': "\<forall>f \<in> set (files ?s'). status f \<noteq> Completed \<longrightarrow> issues f = None"
  proof (intro ballI impI)
    fix f' assume f': "f' \<in> set (files ?s')" and nc: "status f' \<noteq> Completed"
    from fire_set [OF f'] obtain f where f: "f \<in> set (files s)" and
      cases: "(map_of (timers s) tid = None \<and> f' = f)
        \<or> (\<exists>n j. map_of (timers s) tid = Some (UploadInterval n) \<and> f' = upload_one n (rnd j) f)
        \<or> (\<exists>n. map_of (timers s) tid = Some (AnalysisTimeout n) \<and> f' = start_one n f)
        \<or> (\<exists>n j. map_of (timers s) tid = Some (AnalysisInterval n)
              \<and> f' = analysis_one n (rnd j) (rnd (Suc j)) f)"
      by blast
    from cases show "issues f' = None"
    proof (elim disjE exE conjE)
      assume "f' = f" with f nc noiss show ?thesis by simp
    next
      fix n j assume "f' = upload_one n (rnd j) f"
      with f nc noiss show ?thesis by (simp add: upload_one_keeps)
    next
      fix n assume tt: "map_of (timers s) tid = Some (AnalysisTimeout n)" and e: "f' = start_one n f"
      show ?thesis
      proof (cases "name f = n")
        case True
        from tt have "(tid, AnalysisTimeout n) \<in> set (timers s)" by (rule map_of_SomeD)
        with wait f True have "status f = Uploading" by fastforce
        with noiss f have "issues f = None" by simp
        with e show ?thesis by (simp add: start_one_def)
      next
        case False
        with e f nc noiss show ?thesis by (simp add: start_one_def)
      qed
    next
      fix n j assume "f' = analysis_one n (rnd j) (rnd (Suc j)) f"
      with f nc noiss show ?thesis by (auto simp: analysis_one_def split: if_splits)
    qed
  qed
  have wait': "\<forall>p \<in> set (timers ?s'). \<forall>f \<in> set (files ?s').
         snd p = AnalysisTimeout (name f) \<longrightarrow> status f = Uploading \<and> progress f = 100"
  proof (intro ballI impI)
    fix p f' assume p: "p \<in> set (timers ?s')" and f': "f' \<in> set (files ?s')"
      and sp: "snd p = AnalysisTimeout (name f')"
    have old: "status f' = Uploading \<and> progress f' = 100"
      if pin: "p \<in> set (timers s)" and other: "timer_name (snd p) \<noteq> timer_name t"
    proof -
      from other sp have "name f' \<noteq> timer_name t" by simp
      from fire_set_other [OF f' Some this] have "f' \<in> set (files s)" .
      with wait pin sp show ?thesis by simp
    qed
    show "status f' = Uploading \<and> progress f' = 100"
    proof (cases rule: tcases)
      case same
      with p have pin: "p \<in> set (timers s)" by simp
      from same(2) sp have "snd p \<noteq> t" by auto
      from old [OF pin old_timer_other [OF dt Some pin this]] show ?thesis .
    next
      case cleared
      with p have pc: "p \<in> set (clearTimer tid (timers s))" by simp
      then have pin: "p \<in> set (timers s)" by (simp add: clearTimer_set)
      from old [OF pin clearTimer_other_name [OF dt Some pc]] show ?thesis .
    next
      case (timeout n)
      from p timeout(2) have "p \<in> set (clearTimer tid (timers s)) \<or> p = (next_id s, AnalysisTimeout n)"
        by auto
      then show ?thesis
      proof
        assume pc: "p \<in> set (clearTimer tid (timers s))"
        then have pin: "p \<in> set (timers s)" by (simp add: clearTimer_set)
        from old [OF pin clearTimer_other_name [OF dt Some pc]] show ?thesis .
      next
        assume "p = (next_id s, AnalysisTimeout n)"
        with sp have nf: "name f' = n" by simp
        from timeout(3) obtain f0 where f0: "f0 \<in> set (files ?s')" "name f0 = n"
          "status f0 = Uploading" "progress f0 = 100" by blast
        from distinct_map_eq [OF dn' f' f0(1)] nf f0(2) have "f' = f0" by simp
        with f0 show ?thesis by simp
      qed
    next
      case (interval n)
      from p interval(2) sp have pc: "p \<in> set (clearTimer tid (timers s))" by auto
      then have pin: "p \<in> set (timers s)" by (simp add: clearTimer_set)
      from old [OF pin clearTimer_other_name [OF dt Some pc]] show ?thesis .
    qed
  qed
  from known' tknown' dn' dt' wait' noiss' show ?thesis
    by (simp add: uniq_inv_def)
qed

lemma step_uploaded:
  "uploadedFiles (step e s) = uploadedFiles s \<or> (\<exists>n. uploadedFiles (step e s) = uploadedFiles s @ [n])"
  by (cases e) (simp_all add: simulateFileProcessing_def fire_uploaded removeFile_def)

lemma step_uploaded_distinct:
  "distinct (uploadedFiles (step e s)) \<Longrightarrow> distinct (uploadedFiles s)"
  using step_uploaded [of e s] by auto

lemma uniq_step:
  assumes "uniq_inv s" and "distinct (uploadedFiles (step e s))"
  shows "uniq_inv (step e s)"
proof (cases e)
  case (Submit n r1 r2)
  with assms(2) have "distinct (uploadedFiles s @ [n])" by (simp add: simulateFileProcessing_def)
  with assms(1) Submit show ?thesis by (simp add: uniq_submit)
next
  case (Fire tid rnd)
  with assms show ?thesis by (simp add: uniq_fire)
next
  case (Remove n)
  with assms show ?thesis by (simp add: uniq_remove)
qed

lemma reachable_uniq: "reachable s \<Longrightarrow> distinct (uploadedFiles s) \<Longrightarrow> uniq_inv s"
proof (induction rule: reachable.induct)
  case reachable_init
  show ?case by (simp add: uniq_inv_def init_def)
next
  case (reachable_step s e)
  from reachable_step.prems have "distinct (uploadedFiles s)" by (rule step_uploaded_distinct)
  then have "uniq_inv s" by (rule reachable_step.IH)
  then show ?case using reachable_step.prems by (rule uniq_step)
qed

lemma reachable_run:
  "reachable s \<Longrightarrow> \<forall>e \<in> set es. valid_event e \<Longrightarrow> reachable (run es s)"
  unfolding run_def
  by (induction es arbitrary: s) (simp_all add: reachable_step)

lemma submit_nth:
  "i < length (files s) \<Longrightarrow> files (simulateFileProcessing n r1 r2 s) ! i = files s ! i"
  by (simp add: simulateFileProcessing_def nth_append)

lemma step_length:
  "\<forall>n. e \<noteq> Remove n \<Longrightarrow> length (files s) \<le> length (files (step e s))"
  by (cases e) (simp_all add: simulateFileProcessing_def fire_length)

lemma uniq_timeout_target:
  assumes "uniq_inv s" and "map_of (timers s) tid = Some (AnalysisTimeout n)"
    and "i < length (files s)" and "name (files s ! i) = n"
  shows "status (files s ! i) = Uploading \<and> progress (files s ! i) = 100"
proof -
  from assms(2) have "(tid, AnalysisTimeout n) \<in> set (timers s)" by (rule map_of_SomeD)
  moreover from assms(3) have "files s ! i \<in> set (files s)" by simp
  ultimately show ?thesis using assms(1,4) by (fastforce simp: uniq_inv_def)
qed

lemma start_one_status:
  "status (start_one n f) = (if name f = n then Analyzing else status f)"
  by (simp add: start_one_def)

lemma analysis_one_status:
  "status (analysis_one n r r' f) = status f
   \<or> (status f = Analyzing \<and> status (analysis_one n r r' f) = Completed)"
  by (simp add: analysis_one_def)

lemma fire_phase_any:
  assumes "i < length (files s)"
  shows "status (files (fire tid rnd s) ! i) = status (files s ! i)
    \<or> (\<exists>n. map_of (timers s) tid = Some (AnalysisTimeout n) \<and> name (files s ! i) = n
          \<and> status (files (fire tid rnd s) ! i) = Analyzing)
    \<or> (status (files s ! i) = Analyzing \<and> status (files (fire tid rnd s) ! i) = Completed)"
  using fire_nth [OF assms, of tid rnd]
proof (elim disjE exE conjE)
  assume "files (fire tid rnd s) ! i = files s ! i"
  then show ?thesis by simp
next
  fix n j assume "files (fire tid rnd s) ! i = upload_one n (rnd j) (files s ! i)"
  then show ?thesis by (simp add: upload_one_keeps)
next
  fix n assume "map_of (timers s) tid = Some (AnalysisTimeout n)"
    and "files (fire tid rnd s) ! i = start_one n (files s ! i)"
  then show ?thesis by (simp add: start_one_status)
next
  fix n j assume "files (fire tid rnd s) ! i = analysis_one n (rnd j) (rnd (Suc j)) (files s ! i)"
  with analysis_one_status [of n "rnd j" "rnd (Suc j)" "files s ! i"] show ?thesis by auto
qed

lemma fire_phase_uniq:
  assumes "uniq_inv s" and "i < length (files s)"
  shows "phase_fwd (status (files s ! i)) (status (files (fire tid rnd s) ! i))"
  using fire_phase_any [OF assms(2), of tid rnd] uniq_timeout_target [OF assms(1) _ assms(2)]
  by (auto simp: phase_fwd_def)

lemma fire_new_timers:
  assumes "map_of (timers s) tid = Some t" and "p \<in> set (timers (fire tid rnd s))"
  shows "p \<in> set (timers s) \<or> timer_name (snd p) = timer_name t"
  using assms
  by (cases t)
     (auto simp: fire_def uploadIntervalFire_def analysisTimeoutFire_def analysisIntervalFire_def
        case_prod_unfold clearTimer_set split: if_splits)

lemma step_absent:
  assumes "\<forall>f \<in> set (files s). name f \<noteq> n" and "\<forall>r1 r2. e \<noteq> Submit n r1 r2"
  shows "\<forall>f \<in> set (files (step e s)). name f \<noteq> n"
proof (cases e)
  case (Submit m r1 r2)
  with assms show ?thesis by (auto simp: simulateFileProcessing_def)
next
  case (Fire tid rnd)
  have eq: "name ` set (files (fire tid rnd s)) = name ` set (files s)"
    using fire_names [of tid rnd s] by (metis set_map)
  have "name f \<noteq> n" if "f \<in> set (files (fire tid rnd s))" for f
  proof -
    from that have "name f \<in> name ` set (files s)" using eq by blast
    then obtain g where "g \<in> set (files s)" and "name f = name g" by blast
    with assms(1) show ?thesis by simp
  qed
  with Fire show ?thesis by simp
next
  case (Remove m)
  with assms show ?thesis by (auto simp: removeFile_def)
qed

lemma run_absent:
  assumes "\<forall>f \<in> set (files s). name f \<noteq> n" and "\<forall>e \<in> set es. \<forall>r1 r2. e \<noteq> Submit n r1 r2"
  shows "\<forall>f \<in> set (files (run es s)). name f \<noteq> n"
  using assms unfolding run_def
proof (induction es arbitrary: s)
  case Nil
  then show ?case by simp
next
  case (Cons e es)
  from Cons.prems have "\<forall>f \<in> set (files (step e s)). name f \<noteq> n"
    by (intro step_absent) simp_all
  with Cons.IH [of "step e s"] Cons.prems(2) show ?case by simp
qed

lemma fire_absent:
  assumes "\<forall>f \<in> set (files s). name f \<noteq> n" and "map_of (timers s) tid = Some t"
    and "timer_name t = n"
  shows "files (fire tid rnd s) = files s"
proof (rule nth_equalityI)
  show "length (files (fire tid rnd s)) = length (files s)" by (rule fire_length)
next
  fix i assume "i < length (files (fire tid rnd s))"
  then have i: "i < length (files s)" by (simp add: fire_length)
  then have "files s ! i \<in> set (files s)" by simp
  with assms(1,3) have "name (files s ! i) \<noteq> timer_name t" by auto
  from fire_nth_other [OF i assms(2) this] show "files (fire tid rnd s) ! i = files s ! i" .
qed

lemma fire_completed_uniq:
  assumes "uniq_inv s" and "i < length (files s)" and "status (files s ! i) = Completed"
  shows "files (fire tid rnd s) ! i = files s ! i"
  using fire_nth [OF assms(2), of tid rnd]
proof (elim disjE exE conjE)
  assume "files (fire tid rnd s) ! i = files s ! i"
  then show ?thesis .
next
  fix n j assume "files (fire tid rnd s) ! i = upload_one n (rnd j) (files s ! i)"
  with assms(3) show ?thesis by (simp add: upload_one_def)
next
  fix n assume t: "map_of (timers s) tid = Some (AnalysisTimeout n)"
    and e: "files (fire tid rnd s) ! i = start_one n (files s ! i)"
  have "name (files s ! i) \<noteq> n"
    using uniq_timeout_target [OF assms(1) t assms(2)] assms(3) by auto
  with e show ?thesis by (simp add: start_one_def)
next
  fix n j assume "files (fire tid rnd s) ! i = analysis_one n (rnd j) (rnd (Suc j)) (files s ! i)"
  with assms(3) show ?thesis by (simp add: analysis_one_def)
qed

lemma show_int_digit: "0 \<le> x \<Longrightarrow> x < 10 \<Longrightarrow> show_int x = [digit_char (nat x)]"
  by (simp add: show_int_def)

lemma floor_first_digit:
  assumes "unit_draw r"
  shows "\<lfloor>r * 5 + 1\<rfloor> \<in> {1, 2, 3, 4, 5}"
proof -
  define x where "x = \<lfloor>r * 5 + 1\<rfloor>"
  from assms have "1 \<le> x" and "x < 6"
    unfolding x_def by (simp_all add: unit_draw_def le_floor_iff floor_less_iff)
  then have "x \<in> {1, 2, 3, 4, 5}" by auto
  then show ?thesis unfolding x_def .
qed

lemma floor_second_digit:
  assumes "unit_draw r"
  shows "\<lfloor>r * 9\<rfloor> \<in> {0, 1, 2, 3, 4, 5, 6, 7, 8}"
proof -
  define y where "y = \<lfloor>r * 9\<rfloor>"
  from assms have "0 \<le> y" and "y < 9"
    unfolding y_def by (simp_all add: unit_draw_def le_floor_iff floor_less_iff)
  then have "y \<in> {0, 1, 2, 3, 4, 5, 6, 7, 8}" by auto
  then show ?thesis unfolding y_def .
qed

lemma first_digit_char: "x \<in> {1, 2, 3, 4, 5} \<Longrightarrow> digit_char (nat x) \<in> set ''12345''" for x :: int
  by (auto simp: digit_char_def)

lemma second_digit_char:
  "y \<in> {0, 1, 2, 3, 4, 5, 6, 7, 8} \<Longrightarrow> digit_char (nat y) \<in> set ''012345678''" for y :: int
  by (auto simp: digit_char_def)

lemma size_label_form:
  assumes "unit_draw r1" and "unit_draw r2"
  shows "\<exists>a \<in> set ''12345''. \<exists>b \<in> set ''012345678''.
           size_label r1 r2 = [a, CHR ''.'', b, CHR ''M'', CHR ''B'']"
proof -
  define x where "x = \<lfloor>r1 * 5 + 1\<rfloor>"
  define y where "y = \<lfloor>r2 * 9\<rfloor>"
  have x: "x \<in> {1, 2, 3, 4, 5}" unfolding x_def using assms(1) by (rule floor_first_digit)
  have y: "y \<in> {0, 1, 2, 3, 4, 5, 6, 7, 8}" unfolding y_def using assms(2) by (rule floor_second_digit)
  from x have "0 \<le> x" and "x < 10" by auto
  then have sx: "show_int x = [digit_char (nat x)]" by (rule show_int_digit)
  from y have "0 \<le> y" and "y < 10" by auto
  then have sy: "show_int y = [digit_char (nat y)]" by (rule show_int_digit)
  have "size_label r1 r2 = [digit_char (nat x), CHR ''.'', digit_char (nat y), CHR ''M'', CHR ''B'']"
    using sx sy by (simp add: size_label_def x_def y_def)
  with first_digit_char [OF x] second_digit_char [OF y] show ?thesis by blast
qed

lemma step_sizes:
  "\<forall>n. e \<noteq> Remove n \<Longrightarrow>
   map size_f (take (length (files s)) (files (step e s))) = map size_f (files s)"
proof (cases e)
  case (Submit n r1 r2)
  then show ?thesis by (simp add: simulateFileProcessing_def)
next
  case (Fire tid rnd)
  have "map size_f (files (fire tid rnd s)) = map size_f (files s)"
    by (simp add: fire_def uploadIntervalFire_def analysisTimeoutFire_def analysisIntervalFire_def
      case_prod_unfold upload_tick_sizes analysis_tick_sizes start_analysis_sizes
      split: option.splits timer.splits)
  with Fire show ?thesis by (simp add: fire_length)
next
  case (Remove n)
  assume "\<forall>n. e \<noteq> Remove n"
  with Remove show ?thesis by simp
qed

lemma clearTimer_gone: "map_of (clearTimer tid ts) tid = None"
  by (induction ts) (simp_all add: clearTimer_def)

lemma upload_tick_no_cross:
  "snd (snd (upload_tick n rnd k fs)) = 0 \<Longrightarrow> i < length fs \<Longrightarrow>
   name (fs ! i) = n \<Longrightarrow> status (fs ! i) = Uploading \<Longrightarrow>
   progress (fst (upload_tick n rnd k fs) ! i) < 100"
proof (induction fs arbitrary: k i)
  case Nil
  then show ?case by simp
next
  case (Cons f fs)
  show ?case
  proof (cases i)
    case 0
    with Cons.prems show ?thesis
      by (auto simp: Let_def case_prod_unfold split: if_splits)
  next
    case (Suc i')
    with Cons.prems Cons.IH [of _ i'] show ?thesis
      by (auto simp: Let_def case_prod_unfold split: if_splits)
  qed
qed

lemma analysis_tick_no_cross:
  "snd (snd (analysis_tick n rnd k fs)) = 0 \<Longrightarrow> i < length fs \<Longrightarrow>
   status (fst (analysis_tick n rnd k fs) ! i) = status (fs ! i)"
proof (induction fs arbitrary: k i)
  case Nil
  then show ?case by simp
next
  case (Cons f fs)
  show ?case
  proof (cases i)
    case 0
    with Cons.prems show ?thesis
      by (auto simp: Let_def case_prod_unfold split: if_splits)
  next
    case (Suc i')
    with Cons.prems Cons.IH [of _ i'] show ?thesis
      by (auto simp: Let_def case_prod_unfold split: if_splits)
  qed
qed

lemma ids_step: "ids_below s \<Longrightarrow> ids_below (step e s)"
proof (cases e)
  case (Submit n r1 r2)
  assume "ids_below s"
  with Submit show ?thesis by (auto simp: ids_below_def simulateFileProcessing_def)
next
  case (Fire tid rnd)
  assume "ids_below s"
  then have b: "fst p < next_id s" if "p \<in> set (timers s)" for p
    using that by (simp add: ids_below_def)
  have "fst p < next_id (fire tid rnd s)" if "p \<in> set (timers (fire tid rnd s))" for p
    using that b [of p]
    by (auto simp: fire_def uploadIntervalFire_def analysisTimeoutFire_def
        analysisIntervalFire_def case_prod_unfold clearTimer_set
        split: option.splits timer.splits if_splits)
  with Fire show ?thesis by (simp add: ids_below_def)
next
  case (Remove n)
  assume "ids_below s"
  with Remove show ?thesis by (simp add: ids_below_def removeFile_def)
qed

lemma reachable_ids: "reachable s \<Longrightarrow> ids_below s"
  by (induction rule: reachable.induct) (simp_all add: ids_below_def init_def ids_step [unfolded ids_below_def])

lemma upload_fire_stops:
  assumes "ids_below s" and "map_of (timers s) tid = Some (UploadInterval n)"
    and "i < length (files s)" and "name (files s ! i) = n" and "status (files s ! i) = Uploading"
    and "progress (files (fire tid rnd s) ! i) = 100"
  shows "map_of (timers (fire tid rnd s)) tid = None"
proof -
  let ?c = "snd (snd (upload_tick n rnd 0 (files s)))"
  have f: "files (fire tid rnd s) = fst (upload_tick n rnd 0 (files s))"
    using assms(2) by (simp add: fire_def uploadIntervalFire_def case_prod_unfold)
  have "?c \<noteq> 0"
    using upload_tick_no_cross [of n rnd 0 "files s" i] assms(3-6) f by auto
  then have t: "timers (fire tid rnd s)
      = clearTimer tid (timers s) @ map (\<lambda>j. (next_id s + j, AnalysisTimeout n)) [0..<?c]"
    using assms(2) by (simp add: fire_def uploadIntervalFire_def case_prod_unfold)
  from assms(2) have "(tid, UploadInterval n) \<in> set (timers s)" by (rule map_of_SomeD)
  with assms(1) have "tid < next_id s" by (auto simp: ids_below_def)
  then have "tid \<notin> fst ` set (map (\<lambda>j. (next_id s + j, AnalysisTimeout n)) [0..<?c])"
    by auto
  then have "map_of (map (\<lambda>j. (next_id s + j, AnalysisTimeout n)) [0..<?c]) tid = None"
    by (metis map_of_eq_None_iff)
  with t show ?thesis by (simp add: map_add_def clearTimer_gone)
qed

lemma analysis_fire_stops:
  assumes "i < length (files s)" and "status (files s ! i) = Analyzing"
    and "status (files (fire tid rnd s) ! i) = Completed"
  shows "map_of (timers (fire tid rnd s)) tid = None"
  using fire_nth [OF assms(1), of tid rnd]
proof (elim disjE exE conjE)
  assume "files (fire tid rnd s) ! i = files s ! i"
  with assms(2,3) show ?thesis by simp
next
  fix n j assume "files (fire tid rnd s) ! i = upload_one n (rnd j) (files s ! i)"
  with assms(2,3) show ?thesis by (simp add: upload_one_keeps)
next
  fix n assume "files (fire tid rnd s) ! i = start_one n (files s ! i)"
  with assms(2,3) show ?thesis by (simp add: start_one_status split: if_splits)
next
  fix n j assume t: "map_of (timers s) tid = Some (AnalysisInterval n)"
  let ?c = "snd (snd (analysis_tick n rnd 0 (files s)))"
  have f: "files (fire tid rnd s) = fst (analysis_tick n rnd 0 (files s))"
    using t by (simp add: fire_def analysisIntervalFire_def case_prod_unfold)
  have "?c \<noteq> 0"
    using analysis_tick_no_cross [of n rnd 0 "files s" i] assms f by auto
  with t show ?thesis
    by (simp add: fire_def analysisIntervalFire_def case_prod_unfold clearTimer_gone)
qed



lemma upload_tick_first:
  "i < length fs \<Longrightarrow> name (fs ! i) = n \<Longrightarrow> status (fs ! i) = Uploading \<Longrightarrow>
   \<forall>i' < i. \<not> (name (fs ! i') = n \<and> status (fs ! i') = Uploading) \<Longrightarrow>
   fst (upload_tick n rnd k fs) ! i
     = (if 100 \<le> progress (fs ! i) + rnd k * 30
        then (fs ! i)\<lparr>status := Uploading, progress := 100\<rparr>
        else (fs ! i)\<lparr>progress := progress (fs ! i) + rnd k * 30\<rparr>)"
proof (induction fs arbitrary: i)
  case Nil
  then show ?case by simp
next
  case (Cons f fs)
  show ?case
  proof (cases i)
    case 0
    with Cons.prems show ?thesis by (simp add: Let_def case_prod_unfold)
  next
    case (Suc i')
    from Cons.prems(4) Suc have head: "\<not> (name f = n \<and> status f = Uploading)" by auto
    from Cons.prems(4) Suc
    have rest: "\<forall>j < i'. \<not> (name (fs ! j) = n \<and> status (fs ! j) = Uploading)" by auto
    from Cons.prems(1-3) Suc
    have "i' < length fs" "name (fs ! i') = n" "status (fs ! i') = Uploading" by simp_all
    from Cons.IH [OF this rest] head Suc show ?thesis by (auto simp: case_prod_unfold)
  qed
qed

lemma analysis_tick_first:
  "i < length fs \<Longrightarrow> name (fs ! i) = n \<Longrightarrow> status (fs ! i) = Analyzing \<Longrightarrow>
   \<forall>i' < i. \<not> (name (fs ! i') = n \<and> status (fs ! i') = Analyzing) \<Longrightarrow>
   fst (analysis_tick n rnd k fs) ! i
     = (if 100 \<le> progress (fs ! i) + rnd k * 25
        then (fs ! i)\<lparr>status := Completed, progress := 100, issues := Some \<lfloor>rnd (Suc k) * 8\<rfloor>\<rparr>
        else (fs ! i)\<lparr>progress := progress (fs ! i) + rnd k * 25\<rparr>)"
proof (induction fs arbitrary: i)
  case Nil
  then show ?case by simp
next
  case (Cons f fs)
  show ?case
  proof (cases i)
    case 0
    with Cons.prems show ?thesis by (simp add: Let_def case_prod_unfold)
  next
    case (Suc i')
    from Cons.prems(4) Suc have head: "\<not> (name f = n \<and> status f = Analyzing)" by auto
    from Cons.prems(4) Suc
    have rest: "\<forall>j < i'. \<not> (name (fs ! j) = n \<and> status (fs ! j) = Analyzing)" by auto
    from Cons.prems(1-3) Suc
    have "i' < length fs" "name (fs ! i') = n" "status (fs ! i') = Analyzing" by simp_all
    from Cons.IH [OF this rest] head Suc show ?thesis by (auto simp: case_prod_unfold)
  qed
qed

lemma upload_fire_first:
  assumes "ids_below s" and t: "map_of (timers s) tid = Some (UploadInterval (name (files s ! i)))"
    and i: "i < length (files s)" and st: "status (files s ! i) = Uploading"
    and first: "\<forall>i' < i. \<not> (name (files s ! i') = name (files s ! i) \<and> status (files s ! i') = Uploading)"
    and sum: "100 \<le> progress (files s ! i) + rnd 0 * 30"
  shows "files (fire tid rnd s) ! i = (files s ! i)\<lparr>status := Uploading, progress := 100\<rparr>
    \<and> map_of (timers (fire tid rnd s)) tid = None
    \<and> (next_id s, AnalysisTimeout (name (files s ! i))) \<in> set (timers (fire tid rnd s))"
proof -
  let ?n = "name (files s ! i)"
  let ?c = "snd (snd (upload_tick ?n rnd 0 (files s)))"
  have f: "files (fire tid rnd s) = fst (upload_tick ?n rnd 0 (files s))"
    using t by (simp add: fire_def uploadIntervalFire_def case_prod_unfold)
  have a: "files (fire tid rnd s) ! i = (files s ! i)\<lparr>status := Uploading, progress := 100\<rparr>"
    using upload_tick_first [OF i refl st first, of rnd 0] sum f by simp
  then have p: "progress (files (fire tid rnd s) ! i) = 100" by simp
  have b: "map_of (timers (fire tid rnd s)) tid = None"
    using upload_fire_stops [OF assms(1) t i refl st p] .
  have "?c \<noteq> 0"
    using upload_tick_no_cross [of ?n rnd 0 "files s" i] i st p f by auto
  then have "0 \<in> set [0..<?c]" by simp
  then have "(\<lambda>j. (next_id s + j, AnalysisTimeout ?n)) 0
      \<in> (\<lambda>j. (next_id s + j, AnalysisTimeout ?n)) ` set [0..<?c]"
    by (rule imageI)
  then have "(next_id s, AnalysisTimeout ?n)
      \<in> set (map (\<lambda>j. (next_id s + j, AnalysisTimeout ?n)) [0..<?c])"
    by (simp only: set_map add_0_right)
  then have c: "(next_id s, AnalysisTimeout ?n) \<in> set (timers (fire tid rnd s))"
    using t by (simp add: fire_def uploadIntervalFire_def case_prod_unfold)
  from a b c show ?thesis by simp
qed

lemma timeout_fire:
  assumes "ids_below s" and t: "map_of (timers s) tid = Some (AnalysisTimeout (name (files s ! i)))"
    and i: "i < length (files s)"
  shows "files (fire tid rnd s) ! i = (files s ! i)\<lparr>status := Analyzing, progress := 0\<rparr>
    \<and> map_of (timers (fire tid rnd s)) tid = None
    \<and> (next_id s, AnalysisInterval (name (files s ! i))) \<in> set (timers (fire tid rnd s))"
proof -
  from t have "(tid, AnalysisTimeout (name (files s ! i))) \<in> set (timers s)" by (rule map_of_SomeD)
  with assms(1) have "tid \<noteq> next_id s" by (auto simp: ids_below_def)
  with t i show ?thesis
    by (simp add: fire_def analysisTimeoutFire_def start_analysis_def map_add_def clearTimer_gone)
qed

lemma analysis_fire_first:
  assumes t: "map_of (timers s) tid = Some (AnalysisInterval (name (files s ! i)))"
    and i: "i < length (files s)" and st: "status (files s ! i) = Analyzing"
    and first: "\<forall>i' < i. \<not> (name (files s ! i') = name (files s ! i) \<and> status (files s ! i') = Analyzing)"
    and sum: "100 \<le> progress (files s ! i) + rnd 0 * 25"
  shows "files (fire tid rnd s) ! i
      = (files s ! i)\<lparr>status := Completed, progress := 100, issues := Some \<lfloor>rnd 1 * 8\<rfloor>\<rparr>
    \<and> map_of (timers (fire tid rnd s)) tid = None"
proof -
  let ?n = "name (files s ! i)"
  have f: "files (fire tid rnd s) = fst (analysis_tick ?n rnd 0 (files s))"
    using t by (simp add: fire_def analysisIntervalFire_def case_prod_unfold)
  have a: "files (fire tid rnd s) ! i
      = (files s ! i)\<lparr>status := Completed, progress := 100, issues := Some \<lfloor>rnd 1 * 8\<rfloor>\<rparr>"
    using analysis_tick_first [OF i refl st first, of rnd 0] sum f by simp
  then have "status (files (fire tid rnd s) ! i) = Completed" by simp
  from analysis_fire_stops [OF i st this] a show ?thesis by simp
qed

lemma transition_backward:
  assumes "reachable s" and "i < length (files s)" and "\<forall>n. e \<noteq> Remove n"
  shows "(status (files s ! i) = Analyzing \<and> status (files (step e s) ! i) = Completed
          \<longrightarrow> progress (files s ! i) < 100 \<and> progress (files (step e s) ! i) = 100
              \<and> (\<forall>tid rnd. e = Fire tid rnd \<longrightarrow> map_of (timers (step e s)) tid = None))
    \<and> (distinct (uploadedFiles s)
        \<and> status (files s ! i) = Uploading \<and> status (files (step e s) ! i) = Analyzing
          \<longrightarrow> progress (files s ! i) = 100 \<and> progress (files (step e s) ! i) = 0)
    \<and> (\<forall>tid rnd. e = Fire tid rnd
          \<and> map_of (timers s) tid = Some (UploadInterval (name (files s ! i)))
          \<and> status (files s ! i) = Uploading \<and> progress (files (step e s) ! i) = 100
          \<longrightarrow> status (files (step e s) ! i) = Uploading
              \<and> map_of (timers (step e s)) tid = None)"
proof (cases e)
  case (Submit n r1 r2)
  with assms(2) show ?thesis by (auto simp: submit_nth)
next
  case (Fire tid rnd)
  from assms(1,2) have g: "good (files s ! i)" using reachable_good by simp
  have a: "progress (files s ! i) < 100 \<and> progress (files (fire tid rnd s) ! i) = 100
      \<and> map_of (timers (fire tid rnd s)) tid = None"
    if st: "status (files s ! i) = Analyzing" "status (files (fire tid rnd s) ! i) = Completed"
  proof -
    have "progress (files s ! i) < 100 \<and> progress (files (fire tid rnd s) ! i) = 100"
      using fire_nth [OF assms(2), of tid rnd] st g
      by (auto simp: upload_one_def start_one_def analysis_one_def good_def split: if_splits)
    with analysis_fire_stops [OF assms(2) st] show ?thesis by simp
  qed
  have b: "progress (files s ! i) = 100 \<and> progress (files (fire tid rnd s) ! i) = 0"
    if d: "distinct (uploadedFiles s)" and st: "status (files s ! i) = Uploading"
      "status (files (fire tid rnd s) ! i) = Analyzing"
    using fire_nth [OF assms(2), of tid rnd]
  proof (elim disjE exE conjE)
    assume "files (fire tid rnd s) ! i = files s ! i"
    with st show ?thesis by simp
  next
    fix n j assume "files (fire tid rnd s) ! i = upload_one n (rnd j) (files s ! i)"
    with st show ?thesis by (simp add: upload_one_keeps)
  next
    fix n assume t: "map_of (timers s) tid = Some (AnalysisTimeout n)"
      and e: "files (fire tid rnd s) ! i = start_one n (files s ! i)"
    from e st have nm: "name (files s ! i) = n" by (auto simp: start_one_def split: if_splits)
    from uniq_timeout_target [OF reachable_uniq [OF assms(1) d] t assms(2) nm] e nm
    show ?thesis by (simp add: start_one_def)
  next
    fix n j assume "files (fire tid rnd s) ! i = analysis_one n (rnd j) (rnd (Suc j)) (files s ! i)"
    with st show ?thesis by (simp add: analysis_one_def)
  qed
  have c: "status (files (fire tid rnd s) ! i) = Uploading
      \<and> map_of (timers (fire tid rnd s)) tid = None"
    if t: "map_of (timers s) tid = Some (UploadInterval (name (files s ! i)))"
      and st: "status (files s ! i) = Uploading"
      and p: "progress (files (fire tid rnd s) ! i) = 100"
  proof -
    have "status (files (fire tid rnd s) ! i) = Uploading"
      using fire_nth [OF assms(2), of tid rnd] t st by (auto simp: upload_one_keeps)
    moreover have "map_of (timers (fire tid rnd s)) tid = None"
      using upload_fire_stops [OF reachable_ids [OF assms(1)] t assms(2) _ st p] by simp
    ultimately show ?thesis ..
  qed
  from a b c Fire show ?thesis by simp
next
  case (Remove n)
  with assms(3) show ?thesis by simp
qed

lemma analyzing_below_100: assumes "reachable s" and "i < length (files s)"
  shows "status (files s ! i) = Analyzing \<longrightarrow> progress (files s ! i) < 100"
proof
  assume "status (files s ! i) = Analyzing"
  moreover from assms have "good (files s ! i)" using reachable_good by simp
  ultimately show "progress (files s ! i) < 100" by (simp add: good_def)
qed

lemma upload_crossing_forward: assumes "reachable s" and "i < length (files s)"
  shows "\<forall>tid (rnd :: nat \<Rightarrow> real).
          map_of (timers s) tid = Some (UploadInterval (name (files s ! i)))
          \<and> status (files s ! i) = Uploading
          \<and> (\<forall>i' < i. \<not> (name (files s ! i') = name (files s ! i)
                           \<and> status (files s ! i') = Uploading))
          \<and> 100 \<le> progress (files s ! i) + rnd 0 * 30
          \<longrightarrow> files (step (Fire tid rnd) s) ! i
                = (files s ! i)\<lparr>status := Uploading, progress := 100\<rparr>
              \<and> map_of (timers (step (Fire tid rnd) s)) tid = None
              \<and> (next_id s, AnalysisTimeout (name (files s ! i)))
                  \<in> set (timers (step (Fire tid rnd) s))"
proof (intro allI impI)
  fix tid and rnd :: "nat \<Rightarrow> real"
  assume h: "map_of (timers s) tid = Some (UploadInterval (name (files s ! i)))
          \<and> status (files s ! i) = Uploading
          \<and> (\<forall>i' < i. \<not> (name (files s ! i') = name (files s ! i)
                           \<and> status (files s ! i') = Uploading))
          \<and> 100 \<le> progress (files s ! i) + rnd 0 * 30"
  then have t: "map_of (timers s) tid = Some (UploadInterval (name (files s ! i)))"
    and st: "status (files s ! i) = Uploading"
    and first: "\<forall>i' < i. \<not> (name (files s ! i') = name (files s ! i)
                           \<and> status (files s ! i') = Uploading)"
    and sum: "100 \<le> progress (files s ! i) + rnd 0 * 30"
    by blast+
  from upload_fire_first [where rnd = rnd, OF reachable_ids [OF assms(1)] t assms(2) st first sum]
  show "files (step (Fire tid rnd) s) ! i
                = (files s ! i)\<lparr>status := Uploading, progress := 100\<rparr>
              \<and> map_of (timers (step (Fire tid rnd) s)) tid = None
              \<and> (next_id s, AnalysisTimeout (name (files s ! i)))
                  \<in> set (timers (step (Fire tid rnd) s))"
    by (simp only: step.simps)
qed

lemma timeout_forward: assumes "reachable s" and "i < length (files s)"
  shows "\<forall>tid (rnd :: nat \<Rightarrow> real).
          map_of (timers s) tid = Some (AnalysisTimeout (name (files s ! i)))
          \<longrightarrow> files (step (Fire tid rnd) s) ! i
                = (files s ! i)\<lparr>status := Analyzing, progress := 0\<rparr>
              \<and> map_of (timers (step (Fire tid rnd) s)) tid = None
              \<and> (next_id s, AnalysisInterval (name (files s ! i)))
                  \<in> set (timers (step (Fire tid rnd) s))
              \<and> (distinct (uploadedFiles s)
                  \<longrightarrow> status (files s ! i) = Uploading \<and> progress (files s ! i) = 100)"
proof (intro allI impI)
  fix tid and rnd :: "nat \<Rightarrow> real"
  assume t: "map_of (timers s) tid = Some (AnalysisTimeout (name (files s ! i)))"
  have a: "files (step (Fire tid rnd) s) ! i = (files s ! i)\<lparr>status := Analyzing, progress := 0\<rparr>
    \<and> map_of (timers (step (Fire tid rnd) s)) tid = None
    \<and> (next_id s, AnalysisInterval (name (files s ! i))) \<in> set (timers (step (Fire tid rnd) s))"
    using timeout_fire [OF reachable_ids [OF assms(1)] t assms(2), of rnd]
    by (simp only: step.simps)
  have b: "status (files s ! i) = Uploading \<and> progress (files s ! i) = 100"
    if d: "distinct (uploadedFiles s)"
    using uniq_timeout_target [OF reachable_uniq [OF assms(1) d] t assms(2) refl] .
  from a b show "files (step (Fire tid rnd) s) ! i
                = (files s ! i)\<lparr>status := Analyzing, progress := 0\<rparr>
              \<and> map_of (timers (step (Fire tid rnd) s)) tid = None
              \<and> (next_id s, AnalysisInterval (name (files s ! i)))
                  \<in> set (timers (step (Fire tid rnd) s))
              \<and> (distinct (uploadedFiles s)
                  \<longrightarrow> status (files s ! i) = Uploading \<and> progress (files s ! i) = 100)"
    by blast
qed

lemma analysis_crossing_forward: assumes "reachable s" and "i < length (files s)"
  shows "\<forall>tid (rnd :: nat \<Rightarrow> real).
          map_of (timers s) tid = Some (AnalysisInterval (name (files s ! i)))
          \<and> status (files s ! i) = Analyzing
          \<and> (\<forall>i' < i. \<not> (name (files s ! i') = name (files s ! i)
                           \<and> status (files s ! i') = Analyzing))
          \<and> 100 \<le> progress (files s ! i) + rnd 0 * 25
          \<longrightarrow> files (step (Fire tid rnd) s) ! i
                = (files s ! i)\<lparr>status := Completed, progress := 100,
                                 issues := Some \<lfloor>rnd 1 * 8\<rfloor>\<rparr>
              \<and> map_of (timers (step (Fire tid rnd) s)) tid = None"
proof (intro allI impI)
  fix tid and rnd :: "nat \<Rightarrow> real"
  assume h: "map_of (timers s) tid = Some (AnalysisInterval (name (files s ! i)))
          \<and> status (files s ! i) = Analyzing
          \<and> (\<forall>i' < i. \<not> (name (files s ! i') = name (files s ! i)
                           \<and> status (files s ! i') = Analyzing))
          \<and> 100 \<le> progress (files s ! i) + rnd 0 * 25"
  then have t: "map_of (timers s) tid = Some (AnalysisInterval (name (files s ! i)))"
    and st: "status (files s ! i) = Analyzing"
    and first: "\<forall>i' < i. \<not> (name (files s ! i') = name (files s ! i)
                           \<and> status (files s ! i') = Analyzing)"
    and sum: "100 \<le> progress (files s ! i) + rnd 0 * 25"
    by blast+
  from analysis_fire_first [where rnd = rnd, OF t assms(2) st first sum]
  show "files (step (Fire tid rnd) s) ! i
                = (files s ! i)\<lparr>status := Completed, progress := 100,
                                 issues := Some \<lfloor>rnd 1 * 8\<rfloor>\<rparr>
              \<and> map_of (timers (step (Fire tid rnd) s)) tid = None"
    by (simp only: step.simps)
qed

subsection \<open>The scenarios, evaluated\<close>

lemmas step_eval = simulateFileProcessing_def fire_def uploadIntervalFire_def
  analysisTimeoutFire_def analysisIntervalFire_def removeFile_def clearTimer_def
  start_analysis_def size_label_def show_int_def digit_char_def hi_def half_def zero_def
  low_issue_def
  file_A_def Let_def

lemmas sim_eval = run_def init_def step_eval

lemma run_append: "run (es @ es') s = run es' (run es s)"
  by (simp add: run_def)

lemma draws_valid: "unit_draw (hi k)" "unit_draw (half k)" "unit_draw (low_issue k)"
  "unit_draw (1 / 2)" "unit_draw (zero k)"
  by (simp_all add: unit_draw_def hi_def half_def low_issue_def zero_def)

lemma hi_valid: "valid_event (Fire tid hi)" "valid_event (Fire tid half)"
  "valid_event (Fire tid low_issue)" "valid_event (Submit n (1 / 2) (1 / 2))"
  by (simp_all add: unit_draw_def hi_def half_def low_issue_def)

lemma run_upload_A:
  "run upload_A init = \<lparr>files = [file_A Uploading 100 None], uploadedFiles = [''A.fig''],
      timers = [(1, AnalysisTimeout ''A.fig'')], next_id = 2\<rparr>"
  by (simp add: upload_A_def sim_eval)

lemma run_analyze_A:
  "run analyze_A init = \<lparr>files = [file_A Analyzing 90 None], uploadedFiles = [''A.fig''],
      timers = [(2, AnalysisInterval ''A.fig'')], next_id = 3\<rparr>"
  by (simp add: analyze_A_def run_append run_upload_A) (simp add: sim_eval)

lemma run_complete_A:
  "run complete_A init = \<lparr>files = [file_A Completed 100 (Some 7)], uploadedFiles = [''A.fig''],
      timers = [], next_id = 3\<rparr>"
  by (simp add: complete_A_def run_append run_analyze_A) (simp add: sim_eval)

lemma run_resubmit_A:
  "run resubmit_A init = \<lparr>files = [file_A Completed 100 (Some 7), file_A Uploading 100 None],
      uploadedFiles = [''A.fig'', ''A.fig''],
      timers = [(4, AnalysisTimeout ''A.fig'')], next_id = 5\<rparr>"
  by (simp add: resubmit_A_def run_append run_complete_A) (simp add: sim_eval)


lemma scenarios_valid:
  "\<forall>e \<in> set upload_A. valid_event e" "\<forall>e \<in> set analyze_A. valid_event e"
  "\<forall>e \<in> set complete_A. valid_event e" "\<forall>e \<in> set resubmit_A. valid_event e"
  "\<forall>e \<in> set overlap_A. valid_event e"
  by (simp_all add: upload_A_def analyze_A_def complete_A_def resubmit_A_def overlap_A_def
      unit_draw_def hi_def zero_def)

lemma scenarios_reachable:
  "reachable (run upload_A init)" "reachable (run analyze_A init)"
  "reachable (run complete_A init)" "reachable (run resubmit_A init)"
  "reachable (run overlap_A init)"
  by (simp_all add: reachable_run reachable_init scenarios_valid)

lemma run_reanalyze_A:
  "run reanalyze_A init = \<lparr>files = [file_A Analyzing 0 (Some 7), file_A Analyzing 0 None],
      uploadedFiles = [''A.fig'', ''A.fig''],
      timers = [(5, AnalysisInterval ''A.fig'')], next_id = 6\<rparr>"
  by (simp add: reanalyze_A_def run_append run_resubmit_A) (simp add: sim_eval)

lemma run_recomplete_A:
  "run recomplete_A init = \<lparr>files = [file_A Completed 100 (Some 1), file_A Completed 100 (Some 7)],
      uploadedFiles = [''A.fig'', ''A.fig''],
      timers = [], next_id = 6\<rparr>"
  by (simp add: recomplete_A_def run_append run_reanalyze_A) (simp add: sim_eval)

lemma more_reachable:
  "reachable (run reanalyze_A init)" "reachable (run recomplete_A init)"
proof -
  have "reachable (run [Fire 4 hi] (run resubmit_A init))"
    by (rule reachable_run [OF scenarios_reachable(4)]) (simp add: draws_valid)
  then show a: "reachable (run reanalyze_A init)" by (simp add: reanalyze_A_def run_append)
  have "reachable (run [Fire 5 hi, Fire 5 hi, Fire 5 hi, Fire 5 hi, Fire 5 low_issue]
          (run reanalyze_A init))"
    by (rule reachable_run [OF a]) (simp add: draws_valid)
  then show "reachable (run recomplete_A init)" by (simp add: recomplete_A_def run_append)
qed

lemma run_twice_A:
  "run twice_A init = \<lparr>files = [file_A Uploading 0 None, file_A Uploading 0 None],
      uploadedFiles = [''A.fig'', ''A.fig''],
      timers = [(0, UploadInterval ''A.fig''), (1, UploadInterval ''A.fig'')], next_id = 2\<rparr>"
  by (simp add: twice_A_def sim_eval)

lemma run_again_A:
  "run again_A init = \<lparr>files = [file_A Uploading 0 None],
      uploadedFiles = [''A.fig'', ''A.fig''],
      timers = [(0, UploadInterval ''A.fig''), (1, UploadInterval ''A.fig'')], next_id = 2\<rparr>"
  by (simp add: again_A_def sim_eval)

lemma run_pair_AB:
  "run pair_AB init = \<lparr>files = [file_A Uploading 27 None, file_B Uploading 0 None],
      uploadedFiles = [''A.fig'', ''B.fig''],
      timers = [(0, UploadInterval ''A.fig''), (1, UploadInterval ''B.fig'')], next_id = 2\<rparr>"
  by (simp add: pair_AB_def sim_eval file_B_def)


lemma run_orphan_A:
  "run orphan_A init = \<lparr>files = [file_A Uploading 0 None], uploadedFiles = [''A.fig'', ''A.fig''],
      timers = [(2, AnalysisInterval ''A.fig''), (3, UploadInterval ''A.fig'')], next_id = 4\<rparr>"
  by (simp add: orphan_A_def run_append run_analyze_A) (simp add: sim_eval)

lemma run_near_A:
  "run near_A init = \<lparr>files = [file_A Uploading 81 None], uploadedFiles = [''A.fig''],
      timers = [(0, UploadInterval ''A.fig'')], next_id = 1\<rparr>"
  by (simp add: near_A_def sim_eval)

lemma near_A_reachable: "reachable (run near_A init)"
  by (rule reachable_run [OF reachable_init]) (simp add: near_A_def draws_valid)

lemma run_early_A:
  "run early_A init = \<lparr>files = [file_A Uploading 100 None, file_A Uploading 27 None],
      uploadedFiles = [''A.fig'', ''A.fig''],
      timers = [(1, AnalysisTimeout ''A.fig''), (3, AnalysisTimeout ''A.fig'')], next_id = 4\<rparr>"
  by (simp add: early_A_def run_append run_upload_A) (simp add: sim_eval)

lemma early_A_reachable: "reachable (run early_A init)"
  unfolding early_A_def run_append
  by (rule reachable_run [OF scenarios_reachable(1)]) (simp add: draws_valid)

subsection \<open>Phases move forward\<close>

text \<open>
  C1, as amended. As long as no identifier has been submitted twice, a step that is not
  a removal leaves the phase of every record as it is or moves it from Uploading to
  Analyzing or from Analyzing to Completed; a removal only deletes records. In any
  state, with or without repeated identifiers, no step takes a record from Uploading
  straight to Completed.
\<close>

theorem phase_forward:
  "((\<forall>n. e \<noteq> Remove n) \<longrightarrow>
      length (files s) \<le> length (files (step e s))
      \<and> (\<forall>i < length (files s).
            status (files (step e s) ! i) = Completed \<longrightarrow> status (files s ! i) \<noteq> Uploading)
      \<and> (reachable s \<and> distinct (uploadedFiles s) \<longrightarrow>
            (\<forall>i < length (files s).
               phase_fwd (status (files s ! i)) (status (files (step e s) ! i)))))
   \<and> (\<forall>n. e = Remove n \<longrightarrow> files (step e s) = filter (\<lambda>f. name f \<noteq> n) (files s))"
proof (cases e)
  case (Submit n r1 r2)
  then show ?thesis
    using step_length [of e s] by (auto simp: submit_nth phase_fwd_def)
next
  case (Fire tid rnd)
  have a: "\<forall>i < length (files s).
            status (files (fire tid rnd s) ! i) = Completed \<longrightarrow> status (files s ! i) \<noteq> Uploading"
  proof (intro allI impI)
    fix i assume "i < length (files s)" and "status (files (fire tid rnd s) ! i) = Completed"
    with fire_phase_any [of i s tid rnd] show "status (files s ! i) \<noteq> Uploading" by auto
  qed
  have b: "reachable s \<and> distinct (uploadedFiles s) \<longrightarrow>
            (\<forall>i < length (files s).
               phase_fwd (status (files s ! i)) (status (files (fire tid rnd s) ! i)))"
    using reachable_uniq fire_phase_uniq by blast
  from a b Fire show ?thesis by (simp add: fire_length)
next
  case (Remove n)
  then show ?thesis by (simp add: removeFile_def)
qed

text \<open>
  The theorem at the timeout that ends the upload of \<open>A.fig\<close>, at the tick that
  completes its analysis, and at a removal.
\<close>

theorem phase_forward_witness:
  "(\<forall>n. Fire 1 hi \<noteq> Remove n) \<and> reachable (run upload_A init)
   \<and> distinct (uploadedFiles (run upload_A init)) \<and> 0 < length (files (run upload_A init))
   \<and> status (files (run upload_A init) ! 0) = Uploading
   \<and> status (files (step (Fire 1 hi) (run upload_A init)) ! 0) = Analyzing
   \<and> phase_fwd Uploading Analyzing
   \<and> status (files (step (Fire 2 hi) (run analyze_A init)) ! 0) = Completed
   \<and> status (files (run analyze_A init) ! 0) \<noteq> Uploading
   \<and> files (step (Remove ''A.fig'') (run upload_A init))
       = filter (\<lambda>f. name f \<noteq> ''A.fig'') (files (run upload_A init))"
proof -
  have r: "reachable (run upload_A init)" by (rule scenarios_reachable)
  have d: "distinct (uploadedFiles (run upload_A init))" by (simp add: run_upload_A)
  have l: "0 < length (files (run upload_A init))" by (simp add: run_upload_A)
  have u: "status (files (run upload_A init) ! 0) = Uploading"
    by (simp add: run_upload_A file_A_def)
  have a: "status (files (step (Fire 1 hi) (run upload_A init)) ! 0) = Analyzing"
    by (simp add: run_upload_A) (simp add: step_eval)
  from phase_forward [of "Fire 1 hi" "run upload_A init"] r d l
  have "phase_fwd (status (files (run upload_A init) ! 0))
          (status (files (step (Fire 1 hi) (run upload_A init)) ! 0))"
    by blast
  with u a have p: "phase_fwd Uploading Analyzing" by simp
  have l': "0 < length (files (run analyze_A init))" by (simp add: run_analyze_A)
  have c: "status (files (step (Fire 2 hi) (run analyze_A init)) ! 0) = Completed"
    by (simp add: run_analyze_A) (simp add: step_eval)
  from phase_forward [of "Fire 2 hi" "run analyze_A init"] l' c
  have q: "status (files (run analyze_A init) ! 0) \<noteq> Uploading" by blast
  from phase_forward [of "Remove ''A.fig''" "run upload_A init"]
  have "files (step (Remove ''A.fig'') (run upload_A init))
       = filter (\<lambda>f. name f \<noteq> ''A.fig'') (files (run upload_A init))"
    by blast
  with r d l u a p c q show ?thesis by simp
qed

text \<open>
  C1 as stated fails when an identifier is submitted twice: the timeout of the second
  submission of \<open>A.fig\<close> sets every record with that name to Analyzing, also the
  first one, which was Completed.
\<close>

theorem completed_back_to_analyzing:
  "reachable (run resubmit_A init) \<and> valid_event (Fire 4 hi)
   \<and> status (files (run resubmit_A init) ! 0) = Completed
   \<and> status (files (step (Fire 4 hi) (run resubmit_A init)) ! 0) = Analyzing"
proof (intro conjI)
  show "reachable (run resubmit_A init)" by (rule scenarios_reachable)
  show "valid_event (Fire 4 hi)" by (rule hi_valid)
  show "status (files (run resubmit_A init) ! 0) = Completed"
    by (simp add: run_resubmit_A file_A_def)
  show "status (files (step (Fire 4 hi) (run resubmit_A init)) ! 0) = Analyzing"
    by (simp add: run_resubmit_A) (simp add: step_eval)
qed

subsection \<open>Records of other identifiers are left alone\<close>

text \<open>
  C2, as amended. A firing of a timer changes no record whose identifier differs from
  the identifier the timer was created for, and every timer it starts is for that same
  identifier; a handle that is not active changes nothing.
\<close>

theorem tick_frame:
  "(map_of (timers s) tid = None \<longrightarrow> step (Fire tid rnd) s = s)
   \<and> (\<forall>t. map_of (timers s) tid = Some t \<longrightarrow>
         length (files (step (Fire tid rnd) s)) = length (files s)
         \<and> (\<forall>i < length (files s). name (files s ! i) \<noteq> timer_name t \<longrightarrow>
               files (step (Fire tid rnd) s) ! i = files s ! i)
         \<and> (\<forall>p \<in> set (timers (step (Fire tid rnd) s)).
               p \<in> set (timers s) \<or> timer_name (snd p) = timer_name t))"
proof (intro conjI allI impI ballI)
  assume "map_of (timers s) tid = None"
  then show "step (Fire tid rnd) s = s" by (simp add: uniq_fire_None)
next
  fix t assume "map_of (timers s) tid = Some t"
  show "length (files (step (Fire tid rnd) s)) = length (files s)" by (simp add: fire_length)
next
  fix t i assume "map_of (timers s) tid = Some t" and "i < length (files s)"
    and "name (files s ! i) \<noteq> timer_name t"
  then show "files (step (Fire tid rnd) s) ! i = files s ! i" by (simp add: fire_nth_other)
next
  fix t p assume "map_of (timers s) tid = Some t" and "p \<in> set (timers (step (Fire tid rnd) s))"
  then show "p \<in> set (timers s) \<or> timer_name (snd p) = timer_name t"
    using fire_new_timers [of s tid t p rnd] by simp
qed

text \<open>
  The theorem with \<open>A.fig\<close> and \<open>B.fig\<close> uploading: a tick for \<open>A.fig\<close> leaves the
  record of \<open>B.fig\<close> alone.
\<close>

theorem tick_frame_witness:
  "map_of (timers (run pair_AB init)) 0 = Some (UploadInterval ''A.fig'')
   \<and> 1 < length (files (run pair_AB init))
   \<and> name (files (run pair_AB init) ! 1) \<noteq> timer_name (UploadInterval ''A.fig'')
   \<and> files (step (Fire 0 hi) (run pair_AB init)) ! 1 = files (run pair_AB init) ! 1
   \<and> map_of (timers (run pair_AB init)) 7 = None
   \<and> step (Fire 7 hi) (run pair_AB init) = run pair_AB init"
proof -
  have t: "map_of (timers (run pair_AB init)) 0 = Some (UploadInterval ''A.fig'')"
    and l: "1 < length (files (run pair_AB init))"
    and n: "name (files (run pair_AB init) ! 1) \<noteq> timer_name (UploadInterval ''A.fig'')"
    and z: "map_of (timers (run pair_AB init)) 7 = None"
    by (simp_all add: run_pair_AB file_B_def)
  from tick_frame [of "run pair_AB init" 0 hi] t l n
  have a: "files (step (Fire 0 hi) (run pair_AB init)) ! 1 = files (run pair_AB init) ! 1"
    by blast
  from tick_frame [of "run pair_AB init" 7 hi] z
  have b: "step (Fire 7 hi) (run pair_AB init) = run pair_AB init"
    by blast
  from t l n z a b show ?thesis by blast
qed

text \<open>
  C2 as stated fails for two submissions of one identifier: the ticker of the first
  submission (handle 0) advances the record the second submission created.
\<close>

theorem same_id_tick_hits_both:
  "timers (run twice_A init) = [(0, UploadInterval ''A.fig''), (1, UploadInterval ''A.fig'')]
   \<and> files (run twice_A init) ! 1 = file_A Uploading 0 None
   \<and> files (step (Fire 0 hi) (run twice_A init)) ! 1 = file_A Uploading 27 None"
  by (simp add: run_twice_A) (simp add: step_eval)

subsection \<open>After a removal\<close>

text \<open>
  C3, as amended. After \<open>remove\<close> of an identifier, and as long as that identifier is not
  submitted again, no record bears it and every firing of a timer created for it leaves
  the list of records unchanged. The removal itself deletes exactly the records with
  that identifier and leaves all timers running.
\<close>

theorem removed_stays_absent:
  assumes "\<forall>e \<in> set es. \<forall>r1 r2. e \<noteq> Submit n r1 r2"
  shows "(\<forall>f \<in> set (files (run es (step (Remove n) s))). name f \<noteq> n)
    \<and> (\<forall>tid rnd t. map_of (timers (run es (step (Remove n) s))) tid = Some t \<and> timer_name t = n
          \<longrightarrow> files (step (Fire tid rnd) (run es (step (Remove n) s)))
              = files (run es (step (Remove n) s)))
    \<and> files (step (Remove n) s) = filter (\<lambda>f. name f \<noteq> n) (files s)
    \<and> timers (step (Remove n) s) = timers s"
proof -
  have "\<forall>f \<in> set (files (step (Remove n) s)). name f \<noteq> n" by (simp add: removeFile_def)
  from run_absent [OF this assms]
  have a: "\<forall>f \<in> set (files (run es (step (Remove n) s))). name f \<noteq> n" .
  have b: "files (step (Fire tid rnd) (run es (step (Remove n) s)))
              = files (run es (step (Remove n) s))"
    if "map_of (timers (run es (step (Remove n) s))) tid = Some t" "timer_name t = n" for tid rnd t
    using fire_absent [OF a that] by simp
  have c: "files (step (Remove n) s) = filter (\<lambda>f. name f \<noteq> n) (files s)"
    and d: "timers (step (Remove n) s) = timers s"
    by (simp_all add: removeFile_def)
  from a b c d show ?thesis by blast
qed

text \<open>
  The theorem after removing \<open>B.fig\<close>, with a later submission of \<open>C.fig\<close> and a firing
  of the ticker that \<open>B.fig\<close> left behind.
\<close>

theorem removed_stays_absent_witness:
  "list_all (\<lambda>e. \<forall>r1 r2. e \<noteq> Submit ''B.fig'' r1 r2) [Submit ''C.fig'' (1 / 2) (1 / 2), Fire 1 hi]
   \<and> map_of (timers (run [Submit ''C.fig'' (1 / 2) (1 / 2), Fire 1 hi]
        (step (Remove ''B.fig'') (run pair_AB init)))) 1 = Some (UploadInterval ''B.fig'')
   \<and> ''B.fig'' \<notin> name ` set (files (run [Submit ''C.fig'' (1 / 2) (1 / 2), Fire 1 hi]
        (step (Remove ''B.fig'') (run pair_AB init))))
   \<and> files (step (Fire 1 hi) (run [Submit ''C.fig'' (1 / 2) (1 / 2), Fire 1 hi]
        (step (Remove ''B.fig'') (run pair_AB init))))
      = files (run [Submit ''C.fig'' (1 / 2) (1 / 2), Fire 1 hi]
        (step (Remove ''B.fig'') (run pair_AB init)))"
proof -
  let ?es = "[Submit ''C.fig'' (1 / 2) (1 / 2), Fire 1 hi]"
  let ?s = "run ?es (step (Remove ''B.fig'') (run pair_AB init))"
  have h: "\<forall>e \<in> set ?es. \<forall>r1 r2. e \<noteq> Submit ''B.fig'' r1 r2" by simp
  then have h': "list_all (\<lambda>e. \<forall>r1 r2. e \<noteq> Submit ''B.fig'' r1 r2) ?es" by simp
  have t: "map_of (timers ?s) 1 = Some (UploadInterval ''B.fig'')"
    by (simp add: run_pair_AB) (simp add: sim_eval)
  from removed_stays_absent [OF h, of "run pair_AB init"] t
  have "(\<forall>f \<in> set (files ?s). name f \<noteq> ''B.fig'')
    \<and> files (step (Fire 1 hi) ?s) = files ?s"
    by (metis timer_name.simps(1))
  then have "''B.fig'' \<notin> name ` set (files ?s)" and "files (step (Fire 1 hi) ?s) = files ?s"
    by auto
  with h' t show ?thesis by blast
qed

text \<open>
  C3 as stated fails when the identifier is submitted again: \<open>remove\<close> clears no timer,
  so the ticker of the removed record (handle 0) is still active and advances the new
  record of the same name.
\<close>

theorem orphan_ticker_hits_resubmission:
  "map_of (timers (run [Submit ''A.fig'' (1 / 2) (1 / 2), Remove ''A.fig''] init)) 0
     = Some (UploadInterval ''A.fig'')
   \<and> files (run again_A init) = [file_A Uploading 0 None]
   \<and> files (step (Fire 0 hi) (run again_A init)) = [file_A Uploading 27 None]"
  by (simp add: run_again_A) (simp add: sim_eval)

subsection \<open>Submission\<close>

text \<open>
  C4. A submission appends exactly one record, with phase Uploading, progress 0 and no
  issue count, and notifies the observer (the identifier is appended to the list that
  \<open>onFileUpload\<close> maintains) in the same call; the upload ticker is only registered
  by that call, so no tick comes before the notification.
\<close>

theorem submit_creates_record:
  "files (step (Submit n r1 r2) s)
     = files s @ [\<lparr>name = n, size_f = size_label r1 r2, status = Uploading,
                   progress = 0, issues = None\<rparr>]
   \<and> uploadedFiles (step (Submit n r1 r2) s) = uploadedFiles s @ [n]
   \<and> timers (step (Submit n r1 r2) s) = timers s @ [(next_id s, UploadInterval n)]"
  by (simp add: simulateFileProcessing_def)

subsection \<open>The issue count\<close>

text \<open>
  C5, as amended. As long as no identifier has been submitted twice: a record that is
  not Completed has no issue count, a Completed record has one in \<open>[0, 8)\<close>, and a
  Completed record is never changed again by a submission or a timer (a removal only
  deletes records). So the issue count is set at the move into Completed and stays.
\<close>

theorem issues_set_once:
  assumes "reachable s" and "distinct (uploadedFiles s)"
  shows "(\<forall>f \<in> set (files s).
            (status f \<noteq> Completed \<longrightarrow> issues f = None)
          \<and> (status f = Completed \<longrightarrow> (\<exists>k. issues f = Some k \<and> 0 \<le> k \<and> k < 8)))
    \<and> (\<forall>e i. (\<forall>n. e \<noteq> Remove n) \<and> i < length (files s) \<and> status (files s ! i) = Completed
          \<longrightarrow> files (step e s) ! i = files s ! i)
    \<and> (\<forall>n. files (step (Remove n) s) = filter (\<lambda>f. name f \<noteq> n) (files s))"
proof -
  from assms have u: "uniq_inv s" by (rule reachable_uniq)
  from assms(1) have g: "\<forall>f \<in> set (files s). good f" by (rule reachable_good)
  have a: "\<forall>f \<in> set (files s).
            (status f \<noteq> Completed \<longrightarrow> issues f = None)
          \<and> (status f = Completed \<longrightarrow> (\<exists>k. issues f = Some k \<and> 0 \<le> k \<and> k < 8))"
    using u g by (auto simp: uniq_inv_def good_def)
  have b: "files (step e s) ! i = files s ! i"
    if "\<forall>n. e \<noteq> Remove n" "i < length (files s)" "status (files s ! i) = Completed" for e i
    using that by (cases e) (simp_all add: submit_nth fire_completed_uniq [OF u])
  from a b show ?thesis by (simp add: removeFile_def)
qed

text \<open>
  The theorem on the completed record of \<open>A.fig\<close>, and on the same record while it is
  still being analysed.
\<close>

theorem issues_set_once_witness:
  "reachable (run complete_A init) \<and> distinct (uploadedFiles (run complete_A init))
   \<and> (\<forall>n. Fire 2 hi \<noteq> Remove n) \<and> 0 < length (files (run complete_A init))
   \<and> status (files (run complete_A init) ! 0) = Completed
   \<and> (\<exists>k. issues (files (run complete_A init) ! 0) = Some k \<and> 0 \<le> k \<and> k < 8)
   \<and> files (step (Fire 2 hi) (run complete_A init)) ! 0 = files (run complete_A init) ! 0
   \<and> reachable (run analyze_A init) \<and> distinct (uploadedFiles (run analyze_A init))
   \<and> status (files (run analyze_A init) ! 0) \<noteq> Completed
   \<and> issues (files (run analyze_A init) ! 0) = None"
proof -
  have r: "reachable (run complete_A init)" by (rule scenarios_reachable)
  have d: "distinct (uploadedFiles (run complete_A init))" by (simp add: run_complete_A)
  have l: "0 < length (files (run complete_A init))" by (simp add: run_complete_A)
  have c: "status (files (run complete_A init) ! 0) = Completed"
    by (simp add: run_complete_A file_A_def)
  have m: "files (run complete_A init) ! 0 \<in> set (files (run complete_A init))"
    using l by simp
  have e: "\<forall>n. Fire 2 hi \<noteq> Remove n" by simp
  note w = issues_set_once [OF r d]
  from w m c have k: "\<exists>k. issues (files (run complete_A init) ! 0) = Some k \<and> 0 \<le> k \<and> k < 8"
    by blast
  from w e l c
  have f: "files (step (Fire 2 hi) (run complete_A init)) ! 0 = files (run complete_A init) ! 0"
    by blast
  have r': "reachable (run analyze_A init)" by (rule scenarios_reachable)
  have d': "distinct (uploadedFiles (run analyze_A init))" by (simp add: run_analyze_A)
  have c': "status (files (run analyze_A init) ! 0) \<noteq> Completed"
    by (simp add: run_analyze_A file_A_def)
  have m': "files (run analyze_A init) ! 0 \<in> set (files (run analyze_A init))"
    by (simp add: run_analyze_A)
  from issues_set_once [OF r' d'] m' c'
  have n: "issues (files (run analyze_A init) ! 0) = None" by blast
  from r d e l c k f r' d' c' n show ?thesis by blast
qed

text \<open>
  C5 as stated fails when an identifier is submitted twice: the timeout of the second
  submission moves the completed first record back to Analyzing with its issue count
  still set, and the next completion draws a new issue count.
\<close>

theorem issues_kept_then_redrawn:
  "reachable (run complete_A init) \<and> reachable (run reanalyze_A init)
   \<and> reachable (run recomplete_A init)
   \<and> files (run complete_A init) ! 0 = file_A Completed 100 (Some 7)
   \<and> files (run reanalyze_A init) ! 0 = file_A Analyzing 0 (Some 7)
   \<and> files (run recomplete_A init) ! 0 = file_A Completed 100 (Some 1)"
proof (intro conjI)
  show "reachable (run complete_A init)" by (rule scenarios_reachable)
  show "reachable (run reanalyze_A init)" and "reachable (run recomplete_A init)"
    by (rule more_reachable)+
  show "files (run complete_A init) ! 0 = file_A Completed 100 (Some 7)"
    by (simp add: run_complete_A)
  show "files (run reanalyze_A init) ! 0 = file_A Analyzing 0 (Some 7)"
    by (simp add: run_reanalyze_A)
  show "files (run recomplete_A init) ! 0 = file_A Completed 100 (Some 1)"
    by (simp add: run_recomplete_A)
qed

subsection \<open>Progress at a phase transition\<close>

text \<open>
  C6, as amended. For a record of a reachable state:
  \<^item> while it is Analyzing its progress is below 100;
  \<^item> an upload tick for its identifier whose sum reaches or exceeds 100 sets its progress
    to 100, keeps it Uploading, clears the upload interval and schedules the timeout
    (stated for the first record the tick matches, whose draw is the first of the tick);
  \<^item> the timeout for its identifier sets it to Analyzing with progress 0, is used up and
    starts the analysis interval; as long as no identifier has been submitted twice, the
    record was Uploading at progress exactly 100 just before;
  \<^item> an analysis tick for its identifier whose sum reaches or exceeds 100 sets it to
    Completed with progress 100 and the issue count in the same update, and clears the
    analysis interval (again for the first record the tick matches);
  \<^item> read backwards: a record that a step moves from Analyzing to Completed had a progress
    below 100 before the step and has 100 after it; as long as no identifier has been
    submitted twice, a record that a step moves from Uploading to Analyzing had progress
    exactly 100 before and has 0 after; an upload tick that leaves a record of its
    identifier at 100 keeps it Uploading and clears its interval.

  The parts that start from a sum conclude only from a sum of at least 100. Such a sum
  is at least 100 in doubles as well: the progress is then above 70, so 100 minus the
  progress is exact, the rounded product is not below it, and the rounded sum is not
  below 100.
\<close>

theorem progress_at_transition:
  assumes "reachable s" and "i < length (files s)"
  shows "(status (files s ! i) = Analyzing \<longrightarrow> progress (files s ! i) < 100)
    \<and> (\<forall>tid (rnd :: nat \<Rightarrow> real).
          map_of (timers s) tid = Some (UploadInterval (name (files s ! i)))
          \<and> status (files s ! i) = Uploading
          \<and> (\<forall>i' < i. \<not> (name (files s ! i') = name (files s ! i)
                           \<and> status (files s ! i') = Uploading))
          \<and> 100 \<le> progress (files s ! i) + rnd 0 * 30
          \<longrightarrow> files (step (Fire tid rnd) s) ! i
                = (files s ! i)\<lparr>status := Uploading, progress := 100\<rparr>
              \<and> map_of (timers (step (Fire tid rnd) s)) tid = None
              \<and> (next_id s, AnalysisTimeout (name (files s ! i)))
                  \<in> set (timers (step (Fire tid rnd) s)))
    \<and> (\<forall>tid (rnd :: nat \<Rightarrow> real).
          map_of (timers s) tid = Some (AnalysisTimeout (name (files s ! i)))
          \<longrightarrow> files (step (Fire tid rnd) s) ! i
                = (files s ! i)\<lparr>status := Analyzing, progress := 0\<rparr>
              \<and> map_of (timers (step (Fire tid rnd) s)) tid = None
              \<and> (next_id s, AnalysisInterval (name (files s ! i)))
                  \<in> set (timers (step (Fire tid rnd) s))
              \<and> (distinct (uploadedFiles s)
                  \<longrightarrow> status (files s ! i) = Uploading \<and> progress (files s ! i) = 100))
    \<and> (\<forall>tid (rnd :: nat \<Rightarrow> real).
          map_of (timers s) tid = Some (AnalysisInterval (name (files s ! i)))
          \<and> status (files s ! i) = Analyzing
          \<and> (\<forall>i' < i. \<not> (name (files s ! i') = name (files s ! i)
                           \<and> status (files s ! i') = Analyzing))
          \<and> 100 \<le> progress (files s ! i) + rnd 0 * 25
          \<longrightarrow> files (step (Fire tid rnd) s) ! i
                = (files s ! i)\<lparr>status := Completed, progress := 100,
                                 issues := Some \<lfloor>rnd 1 * 8\<rfloor>\<rparr>
              \<and> map_of (timers (step (Fire tid rnd) s)) tid = None)
    \<and> (\<forall>e. (\<forall>n. e \<noteq> Remove n) \<longrightarrow>
          (status (files s ! i) = Analyzing \<and> status (files (step e s) ! i) = Completed
            \<longrightarrow> progress (files s ! i) < 100 \<and> progress (files (step e s) ! i) = 100
                \<and> (\<forall>tid rnd. e = Fire tid rnd \<longrightarrow> map_of (timers (step e s)) tid = None))
          \<and> (distinct (uploadedFiles s)
              \<and> status (files s ! i) = Uploading \<and> status (files (step e s) ! i) = Analyzing
            \<longrightarrow> progress (files s ! i) = 100 \<and> progress (files (step e s) ! i) = 0)
          \<and> (\<forall>tid rnd. e = Fire tid rnd
                \<and> map_of (timers s) tid = Some (UploadInterval (name (files s ! i)))
                \<and> status (files s ! i) = Uploading \<and> progress (files (step e s) ! i) = 100
            \<longrightarrow> status (files (step e s) ! i) = Uploading
                \<and> map_of (timers (step e s)) tid = None))"
  (is "?A \<and> ?U \<and> ?T \<and> ?C \<and> ?B")
proof (intro conjI)
  show ?A by (rule analyzing_below_100 [OF assms])
  show ?U by (rule upload_crossing_forward [OF assms])
  show ?T by (rule timeout_forward [OF assms])
  show ?C by (rule analysis_crossing_forward [OF assms])
  show ?B
  proof (intro allI impI)
    fix e assume e: "\<forall>n. e \<noteq> Remove n"
    show "(status (files s ! i) = Analyzing \<and> status (files (step e s) ! i) = Completed
            \<longrightarrow> progress (files s ! i) < 100 \<and> progress (files (step e s) ! i) = 100
                \<and> (\<forall>tid rnd. e = Fire tid rnd \<longrightarrow> map_of (timers (step e s)) tid = None))
          \<and> (distinct (uploadedFiles s)
              \<and> status (files s ! i) = Uploading \<and> status (files (step e s) ! i) = Analyzing
            \<longrightarrow> progress (files s ! i) = 100 \<and> progress (files (step e s) ! i) = 0)
          \<and> (\<forall>tid rnd. e = Fire tid rnd
                \<and> map_of (timers s) tid = Some (UploadInterval (name (files s ! i)))
                \<and> status (files s ! i) = Uploading \<and> progress (files (step e s) ! i) = 100
            \<longrightarrow> status (files (step e s) ! i) = Uploading
                \<and> map_of (timers (step e s)) tid = None)"
      by (rule transition_backward [OF assms e])
  qed
qed

text \<open>
  The theorem at the last upload tick, at the timeout and at the last analysis tick of
  \<open>A.fig\<close>.
\<close>

theorem progress_at_transition_witness:
  "reachable (run near_A init) \<and> 0 < length (files (run near_A init))
   \<and> map_of (timers (run near_A init)) 0 = Some (UploadInterval (name (files (run near_A init) ! 0)))
   \<and> status (files (run near_A init) ! 0) = Uploading
   \<and> 100 \<le> progress (files (run near_A init) ! 0) + hi 0 * 30
   \<and> files (step (Fire 0 hi) (run near_A init)) ! 0
       = (files (run near_A init) ! 0)\<lparr>status := Uploading, progress := 100\<rparr>
   \<and> map_of (timers (step (Fire 0 hi) (run near_A init))) 0 = None
   \<and> (next_id (run near_A init), AnalysisTimeout (name (files (run near_A init) ! 0)))
       \<in> set (timers (step (Fire 0 hi) (run near_A init)))
   \<and> reachable (run upload_A init) \<and> distinct (uploadedFiles (run upload_A init))
   \<and> map_of (timers (run upload_A init)) 1
       = Some (AnalysisTimeout (name (files (run upload_A init) ! 0)))
   \<and> files (step (Fire 1 hi) (run upload_A init)) ! 0
       = (files (run upload_A init) ! 0)\<lparr>status := Analyzing, progress := 0\<rparr>
   \<and> map_of (timers (step (Fire 1 hi) (run upload_A init))) 1 = None
   \<and> (next_id (run upload_A init), AnalysisInterval (name (files (run upload_A init) ! 0)))
       \<in> set (timers (step (Fire 1 hi) (run upload_A init)))
   \<and> status (files (run upload_A init) ! 0) = Uploading
   \<and> progress (files (run upload_A init) ! 0) = 100
   \<and> reachable (run analyze_A init)
   \<and> map_of (timers (run analyze_A init)) 2
       = Some (AnalysisInterval (name (files (run analyze_A init) ! 0)))
   \<and> status (files (run analyze_A init) ! 0) = Analyzing
   \<and> progress (files (run analyze_A init) ! 0) < 100
   \<and> 100 \<le> progress (files (run analyze_A init) ! 0) + hi 0 * 25
   \<and> files (step (Fire 2 hi) (run analyze_A init)) ! 0
       = (files (run analyze_A init) ! 0)\<lparr>status := Completed, progress := 100,
            issues := Some \<lfloor>hi 1 * 8\<rfloor>\<rparr>
   \<and> map_of (timers (step (Fire 2 hi) (run analyze_A init))) 2 = None
   \<and> (\<forall>n. Fire 2 hi \<noteq> Remove n)
   \<and> status (files (step (Fire 2 hi) (run analyze_A init)) ! 0) = Completed
   \<and> progress (files (step (Fire 2 hi) (run analyze_A init)) ! 0) = 100"
proof -
  have r1: "reachable (run near_A init)" by (rule near_A_reachable)
  have l1: "0 < length (files (run near_A init))" by (simp add: run_near_A)
  have t1: "map_of (timers (run near_A init)) 0
      = Some (UploadInterval (name (files (run near_A init) ! 0)))"
    by (simp add: run_near_A file_A_def)
  have u1: "status (files (run near_A init) ! 0) = Uploading"
    by (simp add: run_near_A file_A_def)
  have f1: "\<forall>i' < (0::nat). \<not> (name (files (run near_A init) ! i') = name (files (run near_A init) ! 0)
      \<and> status (files (run near_A init) ! i') = Uploading)" by simp
  have s1: "100 \<le> progress (files (run near_A init) ! 0) + hi 0 * 30"
    by (simp add: run_near_A file_A_def hi_def)
  note w1 = progress_at_transition [OF r1 l1]
  from w1 [THEN conjunct2, THEN conjunct1, rule_format, of 0 hi] t1 u1 f1 s1
  have a1: "files (step (Fire 0 hi) (run near_A init)) ! 0
       = (files (run near_A init) ! 0)\<lparr>status := Uploading, progress := 100\<rparr>
   \<and> map_of (timers (step (Fire 0 hi) (run near_A init))) 0 = None
   \<and> (next_id (run near_A init), AnalysisTimeout (name (files (run near_A init) ! 0)))
       \<in> set (timers (step (Fire 0 hi) (run near_A init)))"
    by blast
  have r2: "reachable (run upload_A init)" by (rule scenarios_reachable)
  have l2: "0 < length (files (run upload_A init))" by (simp add: run_upload_A)
  have d2: "distinct (uploadedFiles (run upload_A init))" by (simp add: run_upload_A)
  have t2: "map_of (timers (run upload_A init)) 1
       = Some (AnalysisTimeout (name (files (run upload_A init) ! 0)))"
    by (simp add: run_upload_A file_A_def)
  note w2 = progress_at_transition [OF r2 l2]
  from w2 [THEN conjunct2, THEN conjunct2, THEN conjunct1, rule_format, of 1 hi] t2 d2
  have a2: "files (step (Fire 1 hi) (run upload_A init)) ! 0
       = (files (run upload_A init) ! 0)\<lparr>status := Analyzing, progress := 0\<rparr>
   \<and> map_of (timers (step (Fire 1 hi) (run upload_A init))) 1 = None
   \<and> (next_id (run upload_A init), AnalysisInterval (name (files (run upload_A init) ! 0)))
       \<in> set (timers (step (Fire 1 hi) (run upload_A init)))
   \<and> status (files (run upload_A init) ! 0) = Uploading
   \<and> progress (files (run upload_A init) ! 0) = 100"
    by blast
  have r3: "reachable (run analyze_A init)" by (rule scenarios_reachable)
  have l3: "0 < length (files (run analyze_A init))" by (simp add: run_analyze_A)
  have t3: "map_of (timers (run analyze_A init)) 2
       = Some (AnalysisInterval (name (files (run analyze_A init) ! 0)))"
    by (simp add: run_analyze_A file_A_def)
  have u3: "status (files (run analyze_A init) ! 0) = Analyzing"
    by (simp add: run_analyze_A file_A_def)
  have f3: "\<forall>i' < (0::nat). \<not> (name (files (run analyze_A init) ! i')
        = name (files (run analyze_A init) ! 0)
      \<and> status (files (run analyze_A init) ! i') = Analyzing)" by simp
  have s3: "100 \<le> progress (files (run analyze_A init) ! 0) + hi 0 * 25"
    by (simp add: run_analyze_A file_A_def hi_def)
  note w3 = progress_at_transition [OF r3 l3]
  from w3 [THEN conjunct1] u3
  have b3: "progress (files (run analyze_A init) ! 0) < 100" by blast
  from w3 [THEN conjunct2, THEN conjunct2, THEN conjunct2, THEN conjunct1, rule_format, of 2 hi]
    t3 u3 f3 s3
  have a3: "files (step (Fire 2 hi) (run analyze_A init)) ! 0
       = (files (run analyze_A init) ! 0)\<lparr>status := Completed, progress := 100,
            issues := Some \<lfloor>hi 1 * 8\<rfloor>\<rparr>
   \<and> map_of (timers (step (Fire 2 hi) (run analyze_A init))) 2 = None"
    by blast
  have e3: "\<forall>n. Fire 2 hi \<noteq> Remove n" by simp
  from a3 have c3: "status (files (step (Fire 2 hi) (run analyze_A init)) ! 0) = Completed"
    by simp
  from w3 [THEN conjunct2, THEN conjunct2, THEN conjunct2, THEN conjunct2, rule_format,
      of "Fire 2 hi", THEN conjunct1] e3 u3 c3
  have p3: "progress (files (step (Fire 2 hi) (run analyze_A init)) ! 0) = 100"
    by blast
  from r1 l1 t1 u1 s1 a1 r2 d2 t2 a2 r3 t3 u3 b3 s3 a3 e3 c3 p3 show ?thesis by blast
qed

text \<open>
  C6 as stated fails in both phases. In the analysis phase, also with a single record:
  the last progress the record shows while Analyzing is 90, and the next tick makes it
  Completed. In the upload phase, when an identifier is submitted twice: the timeout of
  the first submission moves the second record to Analyzing from progress 27.
\<close>

theorem phase_left_below_100:
  "reachable (run analyze_A init) \<and> valid_event (Fire 2 hi)
   \<and> files (run analyze_A init) ! 0 = file_A Analyzing 90 None
   \<and> files (step (Fire 2 hi) (run analyze_A init)) ! 0 = file_A Completed 100 (Some 7)
   \<and> reachable (run early_A init) \<and> valid_event (Fire 1 hi)
   \<and> files (run early_A init) ! 1 = file_A Uploading 27 None
   \<and> files (step (Fire 1 hi) (run early_A init)) ! 1 = file_A Analyzing 0 None"
proof (intro conjI)
  show "reachable (run analyze_A init)" by (rule scenarios_reachable)
  show "valid_event (Fire 2 hi)" by (rule hi_valid)
  show "files (run analyze_A init) ! 0 = file_A Analyzing 90 None"
    by (simp add: run_analyze_A)
  show "files (step (Fire 2 hi) (run analyze_A init)) ! 0 = file_A Completed 100 (Some 7)"
    by (simp add: run_analyze_A) (simp add: step_eval)
  show "reachable (run early_A init)" by (rule early_A_reachable)
  show "valid_event (Fire 1 hi)" by (rule hi_valid)
  show "files (run early_A init) ! 1 = file_A Uploading 27 None"
    by (simp add: run_early_A)
  show "files (step (Fire 1 hi) (run early_A init)) ! 1 = file_A Analyzing 0 None"
    by (simp add: run_early_A) (simp add: step_eval)
qed

subsection \<open>Progress within a phase\<close>




subsection \<open>The size label\<close>

text \<open>
  C8, as amended. With draws in \<open>[0, 1)\<close> the size label is a digit from 1 to 5, a dot,
  a digit from 0 to 8 and \<open>MB\<close>: the values go from 1.0 to 5.8. It is the label of the
  record the submission creates, and no later step changes the label of a record
  (a removal only deletes records). That the draws are uniform is not expressed here.
\<close>

theorem size_label_fixed:
  "(unit_draw r1 \<and> unit_draw r2 \<longrightarrow>
      (\<exists>a \<in> set ''12345''. \<exists>b \<in> set ''012345678''.
          size_label r1 r2 = [a, CHR ''.'', b, CHR ''M'', CHR ''B'']))
   \<and> size_f (last (files (step (Submit n r1 r2) s))) = size_label r1 r2
   \<and> ((\<forall>n. e \<noteq> Remove n) \<longrightarrow>
        map size_f (take (length (files s)) (files (step e s))) = map size_f (files s))
   \<and> (\<forall>n. e = Remove n \<longrightarrow> files (step e s) = filter (\<lambda>f. name f \<noteq> n) (files s))"
  using size_label_form [of r1 r2] step_sizes [of e s]
  by (simp add: simulateFileProcessing_def removeFile_def)

text \<open>
  The theorem at the draws 0.5 and 0.5, at an upload tick and at a removal.
\<close>

theorem size_label_fixed_witness:
  "unit_draw (1 / 2) \<and> (\<forall>n. Fire 0 hi \<noteq> Remove n)
   \<and> (\<exists>a \<in> set ''12345''. \<exists>b \<in> set ''012345678''.
          size_label (1 / 2) (1 / 2) = [a, CHR ''.'', b, CHR ''M'', CHR ''B''])
   \<and> map size_f (take (length (files (run pair_AB init)))
         (files (step (Fire 0 hi) (run pair_AB init)))) = map size_f (files (run pair_AB init))
   \<and> files (step (Remove ''A.fig'') (run pair_AB init))
       = filter (\<lambda>f. name f \<noteq> ''A.fig'') (files (run pair_AB init))"
proof -
  have u: "unit_draw (1 / 2)" by (rule draws_valid)
  have e: "\<forall>n. Fire 0 hi \<noteq> Remove n" by simp
  from size_label_fixed [of "1 / 2" "1 / 2" "''A.fig''" "run pair_AB init" "Fire 0 hi"] u e
  have a: "(\<exists>a \<in> set ''12345''. \<exists>b \<in> set ''012345678''.
          size_label (1 / 2) (1 / 2) = [a, CHR ''.'', b, CHR ''M'', CHR ''B''])
   \<and> map size_f (take (length (files (run pair_AB init)))
         (files (step (Fire 0 hi) (run pair_AB init)))) = map size_f (files (run pair_AB init))"
    by blast
  from size_label_fixed [of "1 / 2" "1 / 2" "''A.fig''" "run pair_AB init" "Remove ''A.fig''"]
  have b: "files (step (Remove ''A.fig'') (run pair_AB init))
       = filter (\<lambda>f. name f \<noteq> ''A.fig'') (files (run pair_AB init))"
    by blast
  from u e a b show ?thesis by blast
qed

text \<open>
  C8 as stated fails at the upper end: the second digit is \<open>Math.floor(Math.random() * 9)\<close>,
  so the largest label is 5.8MB and 5.9MB is never produced.
\<close>

theorem size_label_never_5_9:
  "size_label (999 / 1000) (999 / 1000) = ''5.8MB''
   \<and> \<not> (\<exists>r1 r2. unit_draw r1 \<and> unit_draw r2 \<and> size_label r1 r2 = ''5.9MB'')"
proof
  show "size_label (999 / 1000) (999 / 1000) = ''5.8MB''"
    by (simp add: size_label_def show_int_def digit_char_def)
next
  show "\<not> (\<exists>r1 r2. unit_draw r1 \<and> unit_draw r2 \<and> size_label r1 r2 = ''5.9MB'')"
  proof
    assume "\<exists>r1 r2. unit_draw r1 \<and> unit_draw r2 \<and> size_label r1 r2 = ''5.9MB''"
    then obtain r1 r2 where "unit_draw r1" "unit_draw r2" "size_label r1 r2 = ''5.9MB''" by blast
    with size_label_form [of r1 r2] show False by auto
  qed
qed

subsection \<open>Removal\<close>

text \<open>
  C9. \<open>remove\<close> deletes every record with the identifier; with an identifier that no
  record bears it changes nothing at all; doing it twice is doing it once. The step
  function is total, so no error is raised.
\<close>

theorem remove_idempotent:
  "files (step (Remove n) s) = filter (\<lambda>f. name f \<noteq> n) (files s)
   \<and> ((\<forall>f \<in> set (files s). name f \<noteq> n) \<longrightarrow> step (Remove n) s = s)
   \<and> step (Remove n) (step (Remove n) s) = step (Remove n) s"
  by (simp add: removeFile_def filter_id_conv)

text \<open>
  The theorem at \<open>ghost.fig\<close>, which was never submitted.
\<close>

theorem remove_idempotent_witness:
  "''ghost.fig'' \<notin> name ` set (files (run pair_AB init))
   \<and> step (Remove ''ghost.fig'') (run pair_AB init) = run pair_AB init
   \<and> step (Remove ''A.fig'') (step (Remove ''A.fig'') (run pair_AB init))
       = step (Remove ''A.fig'') (run pair_AB init)"
proof -
  have h: "\<forall>f \<in> set (files (run pair_AB init)). name f \<noteq> ''ghost.fig''"
    by (simp add: run_pair_AB file_A_def file_B_def)
  then have h': "''ghost.fig'' \<notin> name ` set (files (run pair_AB init))" by auto
  from remove_idempotent [of "''ghost.fig''" "run pair_AB init"] h
  have a: "step (Remove ''ghost.fig'') (run pair_AB init) = run pair_AB init" by blast
  from remove_idempotent [of "''A.fig''" "run pair_AB init"]
  have b: "step (Remove ''A.fig'') (step (Remove ''A.fig'') (run pair_AB init))
       = step (Remove ''A.fig'') (run pair_AB init)" by blast
  from h' a b show ?thesis by blast
qed

subsection \<open>Tickers without a target\<close>

text \<open>
  C10. A firing of an upload interval for an identifier that no record in phase
  Uploading bears, or of an analysis interval for an identifier that no record in phase
  Analyzing bears, leaves the whole state as it was: no record is changed or created,
  no timer is cleared or started.
\<close>

theorem orphan_tick_noop:
  "(map_of (timers s) tid = Some (UploadInterval n)
      \<and> (\<forall>f \<in> set (files s). \<not> (name f = n \<and> status f = Uploading))
    \<longrightarrow> step (Fire tid rnd) s = s)
   \<and> (map_of (timers s) tid = Some (AnalysisInterval n)
      \<and> (\<forall>f \<in> set (files s). \<not> (name f = n \<and> status f = Analyzing))
    \<longrightarrow> step (Fire tid rnd) s = s)"
  by (simp add: fire_def uploadIntervalFire_def analysisIntervalFire_def
      upload_tick_idle analysis_tick_idle)

text \<open>
  The theorem at an analysis interval whose record was removed and submitted again, and
  at an upload interval whose record was removed.
\<close>

theorem orphan_tick_noop_witness:
  "map_of (timers (run orphan_A init)) 2 = Some (AnalysisInterval ''A.fig'')
   \<and> files (run orphan_A init) = [file_A Uploading 0 None]
   \<and> step (Fire 2 hi) (run orphan_A init) = run orphan_A init
   \<and> map_of (timers (run pair_AB init)) 0 = Some (UploadInterval ''A.fig'')
   \<and> files (step (Remove ''A.fig'') (run pair_AB init)) = [file_B Uploading 0 None]
   \<and> step (Fire 0 hi) (step (Remove ''A.fig'') (run pair_AB init))
       = step (Remove ''A.fig'') (run pair_AB init)"
proof -
  have t: "map_of (timers (run orphan_A init)) 2 = Some (AnalysisInterval ''A.fig'')"
    and f: "files (run orphan_A init) = [file_A Uploading 0 None]"
    by (simp_all add: run_orphan_A)
  from f have h: "\<forall>f \<in> set (files (run orphan_A init)).
      \<not> (name f = ''A.fig'' \<and> status f = Analyzing)"
    by (simp add: file_A_def)
  from orphan_tick_noop [of "run orphan_A init" 2 "''A.fig''" hi] t h
  have a: "step (Fire 2 hi) (run orphan_A init) = run orphan_A init" by blast
  let ?s = "step (Remove ''A.fig'') (run pair_AB init)"
  have t': "map_of (timers (run pair_AB init)) 0 = Some (UploadInterval ''A.fig'')"
    by (simp add: run_pair_AB)
  then have t'': "map_of (timers ?s) 0 = Some (UploadInterval ''A.fig'')"
    by (simp add: removeFile_def)
  have f': "files ?s = [file_B Uploading 0 None]"
    by (simp add: run_pair_AB) (simp add: removeFile_def file_A_def file_B_def)
  have h': "\<forall>f \<in> set (files ?s). \<not> (name f = ''A.fig'' \<and> status f = Uploading)"
    by (simp add: removeFile_def)
  from orphan_tick_noop [of ?s 0 "''A.fig''" hi] t'' h'
  have b: "step (Fire 0 hi) ?s = ?s" by blast
  from t f a t' f' b show ?thesis by blast
qed

end
